theory Spec2Isabelle
  imports Complex_Main "HOL-Library.Product_Lexorder"
begin

section \<open>Data model of questions.py\<close>

text \<open>
  Words, document names and sentences are Python strings. A Python \<open>dict\<close> keeps its
  keys in insertion order and holds each key once, so it is an association list whose
  keys are pairwise distinct; \<open>d[k] = v\<close> overwrites the value of a key in place and
  appends a new key at the end. A Python \<open>set\<close> is handed over as the list of its
  elements in the order the interpreter enumerates them. Python integers that only count
  things are naturals, and the result count \<open>n\<close> is an integer, since a slice accepts a
  negative bound. Python floats are read as real numbers, with every operation exact;
  where the rounding of binary64 arithmetic decides a property, the scoring loop of
  \<open>top_files\<close> is given a second time with each operation rounded (section
  \<open>top_files in binary64 arithmetic\<close>).
\<close>

type_synonym token = string
type_synonym doc_id = string
type_synonym ('k, 'v) dict = "('k \<times> 'v) list"

datatype error = ZeroDivisionError | ValueError

fun dict_set :: "('k, 'v) dict \<Rightarrow> 'k \<Rightarrow> 'v \<Rightarrow> ('k, 'v) dict" where
  "dict_set [] k v = [(k, v)]"
| "dict_set ((k', v') # d) k v =
     (if k' = k then (k', v) # d else (k', v') # dict_set d k v)"

definition dict_get :: "('k, 'v) dict \<Rightarrow> 'k \<Rightarrow> 'v \<Rightarrow> 'v" where
  "dict_get d k dflt = (case map_of d k of None \<Rightarrow> dflt | Some v \<Rightarrow> v)"

definition py_truediv :: "nat \<Rightarrow> nat \<Rightarrow> error + real" where
  "py_truediv a b = (if b = 0 then Inl ZeroDivisionError else Inr (real a / real b))"

definition math_log :: "real \<Rightarrow> error + real" where
  "math_log x = (if x \<le> 0 then Inl ValueError else Inr (ln x))"

definition py_sum :: "'a::monoid_add list \<Rightarrow> 'a" where
  "py_sum xs = foldl (+) 0 xs"

text \<open>
  \<open>sorted(xs, key=f, reverse=True)\<close>: the interpreter reverses the list, sorts it
  stably in ascending order of the key and reverses the result, which keeps entries with
  equal keys in their original order.
\<close>

definition sorted_reverse :: "('a \<Rightarrow> 'k::linorder) \<Rightarrow> 'a list \<Rightarrow> 'a list" where
  "sorted_reverse f xs = rev (sort_key f (rev xs))"

text \<open>\<open>xs[:n]\<close>: a negative bound counts from the end of the list.\<close>

definition slice_to :: "int \<Rightarrow> 'a list \<Rightarrow> 'a list" where
  "slice_to n xs =
     (if 0 \<le> n then take (nat n) xs else take (nat (int (length xs) + n)) xs)"

section \<open>compute\_idfs\<close>

text \<open>
  The first loop, one document at a time. \<open>set(doc_words)\<close> is enumerated here in the
  order of first occurrence; the interpreter may choose another order, which changes the
  order of the keys of \<open>doc_frequency\<close> and nothing else (lemma
  \<open>count_document_any_order\<close> below).
\<close>

definition count_document :: "token list \<Rightarrow> (token, nat) dict \<Rightarrow> (token, nat) dict" where
  "count_document doc_words doc_frequency =
     fold (\<lambda>word df. dict_set df word (dict_get df word 0 + 1))
       (remdups doc_words) doc_frequency"

definition doc_frequency :: "(doc_id, token list) dict \<Rightarrow> (token, nat) dict" where
  "doc_frequency documents = fold count_document (map snd documents) []"

fun idfs_loop ::
  "nat \<Rightarrow> (token, nat) dict \<Rightarrow> (token, real) dict \<Rightarrow> error + (token, real) dict" where
  "idfs_loop num_documents [] idfs = Inr idfs"
| "idfs_loop num_documents ((word, frequency) # rest) idfs =
     (case py_truediv num_documents frequency of
        Inl e \<Rightarrow> Inl e
      | Inr ratio \<Rightarrow>
          (case math_log ratio of
             Inl e \<Rightarrow> Inl e
           | Inr idf \<Rightarrow> idfs_loop num_documents rest (dict_set idfs word idf)))"

definition compute_idfs :: "(doc_id, token list) dict \<Rightarrow> error + (token, real) dict" where
  "compute_idfs documents =
     (let num_documents = length documents
      in idfs_loop num_documents (doc_frequency documents) [])"

section \<open>top\_files\<close>

text \<open>
  The scoring loop with exact products and sums. The binary64 reading of the same loop
  is \<open>tf_idf_sum_b64\<close> in the next section; the two differ by the rounding of each
  operation, which matters only where a property asks for an exact equality of scores.
\<close>

definition tf_idf_sum :: "token list \<Rightarrow> token list \<Rightarrow> (token, real) dict \<Rightarrow> real" where
  "tf_idf_sum query file_words idfs =
     fold (\<lambda>word acc.
            if word \<in> set file_words
            then acc + real (count_list file_words word) * dict_get idfs word 0
            else acc)
       query 0"

definition file_scores ::
  "token list \<Rightarrow> (doc_id, token list) dict \<Rightarrow> (token, real) dict \<Rightarrow> (doc_id, real) dict" where
  "file_scores query files idfs =
     fold (\<lambda>(filename, file_words) scores.
            dict_set scores filename (tf_idf_sum query file_words idfs))
       files []"

definition top_files ::
  "token list \<Rightarrow> (doc_id, token list) dict \<Rightarrow> (token, real) dict \<Rightarrow> int \<Rightarrow> doc_id list" where
  "top_files query files idfs n =
     (let sorted_files = sorted_reverse snd (file_scores query files idfs)
      in map fst (slice_to n sorted_files))"

section \<open>top\_files in binary64 arithmetic\<close>

text \<open>
  The interpreter's floats are IEEE 754 binary64 numbers: 53 significant bits, every
  operation rounded to the nearest representable number, a tie going to the even
  significand. A finite float is given by the real number it stands for. The range of
  the exponent is not bounded here, so overflow to infinity and the subnormal numbers
  are left out; the scores of a corpus stay far from both.
\<close>

definition round_half_even :: "real \<Rightarrow> int" where
  "round_half_even y =
     (let f = \<lfloor>y\<rfloor>
      in if y - of_int f < 1 / 2 then f
         else if 1 / 2 < y - of_int f then f + 1
         else if even f then f else f + 1)"

definition b64_round :: "real \<Rightarrow> real" where
  "b64_round x =
     (if x = 0 then 0
      else let e = \<lfloor>log 2 \<bar>x\<bar>\<rfloor> - 52
           in of_int (round_half_even (x / 2 powi e)) * 2 powi e)"

text \<open>
  \<open>file_words.count(word) * idfs.get(word, 0)\<close> converts the count to a float and
  multiplies two floats; \<open>tf_idf_sum += ...\<close> adds two floats. Rounding a number that is
  representable returns it (lemma \<open>b64_round_idem\<close> below), so adding the float zero
  changes nothing, as in the interpreter.
\<close>

definition b64_of_nat :: "nat \<Rightarrow> real" where
  "b64_of_nat c = b64_round (real c)"

definition b64_mul :: "real \<Rightarrow> real \<Rightarrow> real" where
  "b64_mul a b = b64_round (a * b)"

definition b64_add :: "real \<Rightarrow> real \<Rightarrow> real" where
  "b64_add a b = b64_round (a + b)"

definition tf_idf_sum_b64 :: "token list \<Rightarrow> token list \<Rightarrow> (token, real) dict \<Rightarrow> real" where
  "tf_idf_sum_b64 query file_words idfs =
     fold (\<lambda>word acc.
            if word \<in> set file_words
            then b64_add acc
                   (b64_mul (b64_of_nat (count_list file_words word)) (dict_get idfs word 0))
            else acc)
       query 0"

definition file_scores_b64 ::
  "token list \<Rightarrow> (doc_id, token list) dict \<Rightarrow> (token, real) dict \<Rightarrow> (doc_id, real) dict" where
  "file_scores_b64 query files idfs =
     fold (\<lambda>(filename, file_words) scores.
            dict_set scores filename (tf_idf_sum_b64 query file_words idfs))
       files []"

definition top_files_b64 ::
  "token list \<Rightarrow> (doc_id, token list) dict \<Rightarrow> (token, real) dict \<Rightarrow> int \<Rightarrow> doc_id list" where
  "top_files_b64 query files idfs n =
     (let sorted_files = sorted_reverse snd (file_scores_b64 query files idfs)
      in map fst (slice_to n sorted_files))"

section \<open>top\_sentences\<close>

definition sentence_score ::
  "token list \<Rightarrow> token list \<Rightarrow> (token, real) dict \<Rightarrow> error + (real \<times> real)" where
  "sentence_score query words idfs =
     (let matching_word_measure =
            py_sum (map (\<lambda>word. dict_get idfs word 0)
                      (filter (\<lambda>word. word \<in> set words) query))
      in case py_truediv
                (py_sum (map (\<lambda>word. 1) (filter (\<lambda>word. word \<in> set query) words)))
                (length words) of
           Inl e \<Rightarrow> Inl e
         | Inr query_term_density \<Rightarrow> Inr (matching_word_measure, query_term_density))"

fun sentence_scores ::
  "token list \<Rightarrow> (string, token list) dict \<Rightarrow> (token, real) dict \<Rightarrow>
   (string, real \<times> real) dict \<Rightarrow> error + (string, real \<times> real) dict" where
  "sentence_scores query [] idfs scores = Inr scores"
| "sentence_scores query ((sentence, words) # rest) idfs scores =
     (case sentence_score query words idfs of
        Inl e \<Rightarrow> Inl e
      | Inr score \<Rightarrow> sentence_scores query rest idfs (dict_set scores sentence score))"

definition top_sentences ::
  "token list \<Rightarrow> (string, token list) dict \<Rightarrow> (token, real) dict \<Rightarrow> int \<Rightarrow>
   error + string list" where
  "top_sentences query sentences idfs n =
     (case sentence_scores query sentences idfs [] of
        Inl e \<Rightarrow> Inl e
      | Inr scores \<Rightarrow>
          (let sorted_sentences =
                 sorted_reverse (\<lambda>item. (fst (snd item), snd (snd item))) scores
           in Inr (map fst (slice_to n sorted_sentences))))"

section \<open>Notions used to state the properties\<close>

text \<open>
  The document frequency of a term as the specification words it: the number of
  documents whose token sequence contains the term.
\<close>

definition spec_df :: "(doc_id, token list) dict \<Rightarrow> token \<Rightarrow> nat" where
  "spec_df documents t = length (filter (\<lambda>doc. t \<in> set (snd doc)) documents)"

text \<open>
  The entry that the second loop of \<open>compute_idfs\<close> writes for one entry of
  \<open>doc_frequency\<close>.
\<close>

definition idf_entry :: "nat \<Rightarrow> token \<times> nat \<Rightarrow> token \<times> real" where
  "idf_entry N = (\<lambda>(word, frequency). (word, ln (real N / real frequency)))"

text \<open>
  The entry that the loop of \<open>top_files\<close> writes into \<open>file_scores\<close> for one file.
\<close>

definition score_entry ::
  "token list \<Rightarrow> (token, real) dict \<Rightarrow> doc_id \<times> token list \<Rightarrow> doc_id \<times> real" where
  "score_entry query idfs = (\<lambda>(filename, file_words). (filename, tf_idf_sum query file_words idfs))"

text \<open>
  The matching-word measure as the specification words it: the sum of the IDF values
  (zero for a term without one) over the distinct query terms that occur in the sentence.
\<close>

definition spec_measure :: "token list \<Rightarrow> token list \<Rightarrow> (token, real) dict \<Rightarrow> real" where
  "spec_measure query words idfs =
     (\<Sum>t \<in> set query \<inter> set words. case map_of idfs t of None \<Rightarrow> 0 | Some v \<Rightarrow> v)"

text \<open>
  The query-term density as the specification words it: the number of tokens of the
  sentence that are query terms, divided by the number of its tokens.
\<close>

definition spec_density :: "token list \<Rightarrow> token list \<Rightarrow> real" where
  "spec_density query words =
     real (length (filter (\<lambda>w. w \<in> set query) words)) / real (length words)"

text \<open>
  The pair that the loop of \<open>top_sentences\<close> computes for a sentence with at least one
  token, with Python's \<open>sum\<close> written as a list sum.
\<close>

definition score_pair :: "token list \<Rightarrow> (token, real) dict \<Rightarrow> token list \<Rightarrow> real \<times> real" where
  "score_pair query idfs words =
     (sum_list (map (\<lambda>word. dict_get idfs word 0) (filter (\<lambda>word. word \<in> set words) query)),
      real (length (filter (\<lambda>word. word \<in> set query) words)) / real (length words))"

text \<open>
  The entry that the loop of \<open>top_sentences\<close> writes into \<open>sentence_scores\<close>.
\<close>

definition sentence_entry ::
  "token list \<Rightarrow> (token, real) dict \<Rightarrow> string \<times> token list \<Rightarrow> string \<times> real \<times> real" where
  "sentence_entry query idfs = (\<lambda>(sentence, words). (sentence, score_pair query idfs words))"

text \<open>
  The sort key of \<open>top_sentences\<close>: the pair itself, compared lexicographically as
  Python compares tuples.
\<close>

definition sentence_key :: "string \<times> real \<times> real \<Rightarrow> real \<times> real" where
  "sentence_key = (\<lambda>item. (fst (snd item), snd (snd item)))"

text \<open>
  The binary64 number nearest to \<open>ln 2\<close>, which \<open>math.log(2)\<close> returns: the IDF value of a
  term that occurs in one of two documents.
\<close>

definition ln2_b64 :: real where
  "ln2_b64 = 6243314768165359 / 9007199254740992"

text \<open>
  The entry that the loop of \<open>top_files\<close> writes for one file, in binary64 arithmetic.
\<close>

definition score_entry_b64 ::
  "token list \<Rightarrow> (token, real) dict \<Rightarrow> doc_id \<times> token list \<Rightarrow> doc_id \<times> real" where
  "score_entry_b64 query idfs =
     (\<lambda>(filename, file_words). (filename, tf_idf_sum_b64 query file_words idfs))"

section \<open>Dictionaries and sums\<close>

lemma map_of_dict_set: "map_of (dict_set d k v) = (map_of d)(k \<mapsto> v)"
  by (induction d) (auto simp: fun_eq_iff)

lemma map_fst_dict_set:
  "map fst (dict_set d k v) = (if k \<in> set (map fst d) then map fst d else map fst d @ [k])"
proof (induction d)
  case Nil
  show ?case by simp
next
  case (Cons p d)
  obtain k' v' where p: "p = (k', v')" by (cases p)
  show ?case
  proof (cases "k' = k")
    case True
    then show ?thesis by (simp add: p)
  next
    case False
    then show ?thesis using Cons.IH by (simp add: p)
  qed
qed

lemma keys_dict_set: "set (map fst (dict_set d k v)) = insert k (set (map fst d))"
  by (auto simp: map_fst_dict_set)

lemma distinct_dict_set:
  "distinct (map fst d) \<Longrightarrow> distinct (map fst (dict_set d k v))"
  by (simp add: map_fst_dict_set)

lemma dict_set_fresh: "k \<notin> set (map fst d) \<Longrightarrow> dict_set d k v = d @ [(k, v)]"
  by (induction d) auto

lemma py_sum_sum_list: "py_sum xs = sum_list xs"
proof -
  have "foldl (+) a xs = a + sum_list xs" for a :: 'a
    by (induction xs arbitrary: a) (simp_all add: add.assoc)
  from this [of 0] show ?thesis by (simp add: py_sum_def)
qed

section \<open>Document frequencies\<close>

lemma count_words_fold:
  "distinct us \<Longrightarrow>
   map_of (fold (\<lambda>word df. dict_set df word (dict_get df word 0 + 1)) us df) t =
     (if t \<in> set us then Some (dict_get df t 0 + 1) else map_of df t)"
  by (induction us arbitrary: df) (auto simp: map_of_dict_set dict_get_def)

lemma map_of_count_document:
  "map_of (count_document ws df) t =
     (if t \<in> set ws then Some (dict_get df t 0 + 1) else map_of df t)"
  unfolding count_document_def using count_words_fold [of "remdups ws" df t] by simp

lemma count_document_any_order:
  assumes "distinct us" "set us = set ws"
  shows "map_of (fold (\<lambda>word df. dict_set df word (dict_get df word 0 + 1)) us df)
         = map_of (count_document ws df)"
proof
  fix t
  show "map_of (fold (\<lambda>word df. dict_set df word (dict_get df word 0 + 1)) us df) t
        = map_of (count_document ws df) t"
    by (simp only: count_words_fold [OF assms(1)] map_of_count_document assms(2))
qed

lemma distinct_count_words_fold:
  "distinct (map fst df) \<Longrightarrow>
   distinct (map fst (fold (\<lambda>word df. dict_set df word (dict_get df word 0 + 1)) us df))"
  by (induction us arbitrary: df) (auto simp: distinct_dict_set)

lemma distinct_count_document:
  "distinct (map fst df) \<Longrightarrow> distinct (map fst (count_document ws df))"
  unfolding count_document_def by (rule distinct_count_words_fold)

lemma fold_count_document:
  "map_of (fold count_document wss df) t =
     (let c = length (filter (\<lambda>ws. t \<in> set ws) wss)
      in if c = 0 then map_of df t else Some (dict_get df t 0 + c))"
proof (induction wss arbitrary: df)
  case Nil
  show ?case by simp
next
  case (Cons ws wss)
  show ?case
    by (simp add: Cons.IH map_of_count_document dict_get_def Let_def)
qed

lemma distinct_fold_count_document:
  "distinct (map fst df) \<Longrightarrow> distinct (map fst (fold count_document wss df))"
  by (induction wss arbitrary: df) (auto simp: distinct_count_document)

lemma map_of_doc_frequency:
  "map_of (doc_frequency documents) t =
     (if spec_df documents t = 0 then None else Some (spec_df documents t))"
proof -
  have "length (filter (\<lambda>ws. t \<in> set ws) (map snd documents)) = spec_df documents t"
    by (simp add: spec_df_def filter_map comp_def)
  then show ?thesis
    using fold_count_document [of "map snd documents" "[]" t]
    by (simp add: doc_frequency_def dict_get_def Let_def)
qed

lemma distinct_doc_frequency: "distinct (map fst (doc_frequency documents))"
  by (simp add: doc_frequency_def distinct_fold_count_document)

lemma spec_df_le: "spec_df documents t \<le> length documents"
  by (simp add: spec_df_def)

lemma spec_df_pos_iff:
  "0 < spec_df documents t \<longleftrightarrow> (\<exists>doc \<in> set documents. t \<in> set (snd doc))"
  by (auto simp: spec_df_def filter_empty_conv)

lemma spec_df_full_iff:
  "spec_df documents t = length documents \<longleftrightarrow> (\<forall>doc \<in> set documents. t \<in> set (snd doc))"
  unfolding spec_df_def
  by (metis filter_True length_filter_less order_less_irrefl  filter_id_conv)

section \<open>Properties of compute\_idfs\<close>

lemma idfs_loop_map:
  assumes "distinct (map fst idfs @ map fst df)"
    and "\<forall>p \<in> set df. 0 < snd p \<and> snd p \<le> N"
  shows "idfs_loop N df idfs = Inr (idfs @ map (idf_entry N) df)"
  using assms
proof (induction df arbitrary: idfs)
  case Nil
  show ?case by simp
next
  case (Cons p df)
  obtain w f where p: "p = (w, f)" by (cases p)
  from Cons.prems(2) have f: "0 < f" "f \<le> N" by (simp_all add: p)
  then have ratio: "0 < real N / real f" by simp
  have fresh: "w \<notin> set (map fst idfs)" using Cons.prems(1) by (auto simp: p)
  have step: "dict_set idfs w (ln (real N / real f)) = idfs @ [idf_entry N p]"
    using dict_set_fresh [OF fresh] by (simp add: idf_entry_def p)
  have d: "distinct (map fst (idfs @ [idf_entry N p]) @ map fst df)"
    using Cons.prems(1) by (auto simp: p idf_entry_def)
  have r: "\<forall>q \<in> set df. 0 < snd q \<and> snd q \<le> N" using Cons.prems(2) by simp
  have nle: "\<not> real N / real f \<le> 0" using ratio by linarith
  have "idfs_loop N (p # df) idfs = idfs_loop N df (dict_set idfs w (ln (real N / real f)))"
    using f nle by (simp add: p py_truediv_def math_log_def)
  also have "\<dots> = idfs_loop N df (idfs @ [idf_entry N p])"
    by (simp only: step)
  also have "\<dots> = Inr ((idfs @ [idf_entry N p]) @ map (idf_entry N) df)"
    by (rule Cons.IH [OF d r])
  finally show ?case by simp
qed

lemma doc_frequency_entry:
  assumes "p \<in> set (doc_frequency documents)"
  shows "snd p = spec_df documents (fst p) \<and> 0 < snd p \<and> snd p \<le> length documents"
proof -
  have "map_of (doc_frequency documents) (fst p) = Some (snd p)"
    using assms distinct_doc_frequency [of documents] by simp
  then have "spec_df documents (fst p) \<noteq> 0 \<and> snd p = spec_df documents (fst p)"
    by (simp add: map_of_doc_frequency split: if_splits)
  then show ?thesis using spec_df_le [of documents "fst p"] by simp
qed

lemma compute_idfs_eq:
  "compute_idfs documents =
     Inr (map (idf_entry (length documents)) (doc_frequency documents))"
proof -
  have "idfs_loop (length documents) (doc_frequency documents) [] =
        Inr ([] @ map (idf_entry (length documents)) (doc_frequency documents))"
    by (rule idfs_loop_map) (auto simp: distinct_doc_frequency dest: doc_frequency_entry)
  then show ?thesis by (simp add: compute_idfs_def)
qed

lemma map_of_idf_entries:
  "map_of (map (idf_entry N) df) t =
     map_option (\<lambda>f. ln (real N / real f)) (map_of df t)"
  by (induction df) (auto simp: idf_entry_def)

lemma map_fst_idf_entries: "map fst (map (idf_entry N) df) = map fst df"
  by (induction df) (auto simp: idf_entry_def)

lemma keys_doc_frequency:
  "set (map fst (doc_frequency documents)) = (\<Union>doc \<in> set documents. set (snd doc))"
proof -
  have "t \<in> set (map fst (doc_frequency documents)) \<longleftrightarrow>
        (\<exists>doc \<in> set documents. t \<in> set (snd doc))" for t
  proof -
    have "t \<in> set (map fst (doc_frequency documents)) \<longleftrightarrow>
          map_of (doc_frequency documents) t \<noteq> None"
      by (simp add: map_of_eq_None_iff)
    also have "\<dots> \<longleftrightarrow> 0 < spec_df documents t"
      by (simp add: map_of_doc_frequency)
    finally show ?thesis by (simp add: spec_df_pos_iff)
  qed
  then show ?thesis by blast
qed

text \<open>
  Claim C1, as amended: for the empty documents mapping \<open>compute_idfs\<close> raises nothing
  and returns the empty mapping. The second loop has no entry to divide for.
\<close>

theorem compute_idfs_empty: "compute_idfs [] = Inr []"
  by (simp add: compute_idfs_def doc_frequency_def)

text \<open>
  Claim C1 as stated (the call fails with an error on the empty mapping) does not hold:
  the result is not an error value.
\<close>

theorem empty_corpus_is_no_error: "\<not> isl (compute_idfs [])"
  by (simp add: compute_idfs_def doc_frequency_def)

text \<open>
  Claim C2: for a non-empty documents mapping \<open>compute_idfs\<close> returns a mapping whose
  keys are exactly the terms that occur in at least one document, each key once, and
  the value of a term \<open>t\<close> is \<open>ln (N / df t)\<close>, with \<open>N\<close> the number of documents and
  \<open>df t\<close> the number of documents that contain \<open>t\<close>.
\<close>

theorem compute_idfs_table:
  assumes "documents \<noteq> []"
  shows "\<exists>idfs. compute_idfs documents = Inr idfs \<and> distinct (map fst idfs)
           \<and> set (map fst idfs) = (\<Union>doc \<in> set documents. set (snd doc))
           \<and> (\<forall>t \<in> set (map fst idfs).
                 map_of idfs t =
                   Some (ln (real (length documents) / real (spec_df documents t))))"
proof -
  let ?idfs = "map (idf_entry (length documents)) (doc_frequency documents)"
  have "map_of ?idfs t = Some (ln (real (length documents) / real (spec_df documents t)))"
    if "t \<in> set (map fst ?idfs)" for t
  proof -
    from that have "t \<in> set (map fst (doc_frequency documents))"
      by (simp only: map_fst_idf_entries)
    then have "\<exists>doc \<in> set documents. t \<in> set (snd doc)"
      by (simp only: keys_doc_frequency) blast
    then have "0 < spec_df documents t"
      by (simp only: spec_df_pos_iff)
    then show ?thesis by (simp add: map_of_idf_entries map_of_doc_frequency)
  qed
  then have vals: "\<forall>t \<in> set (map fst ?idfs).
      map_of ?idfs t = Some (ln (real (length documents) / real (spec_df documents t)))"
    by blast
  have keys: "set (map fst ?idfs) = (\<Union>doc \<in> set documents. set (snd doc))"
    by (simp only: map_fst_idf_entries keys_doc_frequency)
  have dist: "distinct (map fst ?idfs)"
    by (simp only: map_fst_idf_entries distinct_doc_frequency)
  from compute_idfs_eq [of documents] dist keys vals show ?thesis
    by (intro exI [of _ ?idfs] conjI)
qed

theorem compute_idfs_table_witness:
  "[(''a.txt'', [''cat'', ''sat'', ''cat'']), (''b.txt'', [''cat''])] \<noteq> []
   \<and> (\<exists>idfs. compute_idfs [(''a.txt'', [''cat'', ''sat'', ''cat'']), (''b.txt'', [''cat''])]
                = Inr idfs
          \<and> map_of idfs ''sat'' = Some (ln 2) \<and> map_of idfs ''cat'' = Some 0)"
proof -
  let ?docs = "[(''a.txt'', [''cat'', ''sat'', ''cat'']), (''b.txt'', [''cat''])]"
  have ne: "?docs \<noteq> []" by simp
  from compute_idfs_table [OF ne] obtain idfs where
    r: "compute_idfs ?docs = Inr idfs"
    and k: "set (map fst idfs) = (\<Union>doc \<in> set ?docs. set (snd doc))"
    and v: "\<forall>t \<in> set (map fst idfs).
              map_of idfs t = Some (ln (real (length ?docs) / real (spec_df ?docs t)))"
    by blast
  have "''sat'' \<in> set (map fst idfs)" "''cat'' \<in> set (map fst idfs)"
    by (simp_all only: k) simp_all
  with v have "map_of idfs ''sat'' = Some (ln (real (length ?docs) / real (spec_df ?docs ''sat'')))"
    "map_of idfs ''cat'' = Some (ln (real (length ?docs) / real (spec_df ?docs ''cat'')))"
    by blast+
  then have "map_of idfs ''sat'' = Some (ln 2)" "map_of idfs ''cat'' = Some 0"
    by (simp_all add: spec_df_def)
  with r ne show ?thesis by blast
qed

lemma dict_get_doc_frequency:
  "dict_get (doc_frequency documents) t 0 = spec_df documents t"
  by (simp add: dict_get_def map_of_doc_frequency)

lemma idf_lookup:
  assumes "0 < spec_df documents t"
  shows "\<exists>idfs. compute_idfs documents = Inr idfs \<and>
           map_of idfs t = Some (ln (real (length documents) / real (spec_df documents t)))"
  using assms by (simp add: compute_idfs_eq map_of_idf_entries map_of_doc_frequency)

lemma ln_ratio_bounds:
  fixes N f :: nat
  assumes "0 < f" "f \<le> N"
  shows "0 \<le> ln (real N / real f)" "ln (real N / real f) \<le> ln (real N)"
    "ln (real N / real f) = 0 \<longleftrightarrow> f = N"
proof -
  have one: "1 \<le> real N / real f" using assms by simp
  then show "0 \<le> ln (real N / real f)" by simp
  have pos: "0 < real N / real f" using one by linarith
  have "real N / real f \<le> real N / 1"
    using assms by (intro divide_left_mono) simp_all
  then have "real N / real f \<le> real N" by simp
  then show "ln (real N / real f) \<le> ln (real N)"
    using pos by (intro ln_mono) simp_all
  have "ln (real N / real f) = 0 \<longleftrightarrow> real N / real f = 1"
    using pos by (simp only: ln_eq_zero_iff)
  also have "\<dots> \<longleftrightarrow> f = N" using assms by (auto simp: field_simps)
  finally show "ln (real N / real f) = 0 \<longleftrightarrow> f = N" .
qed

text \<open>
  Claim C7: for a term \<open>t\<close> of some document, the value \<open>v\<close> that \<open>compute_idfs\<close>
  stores for \<open>t\<close> lies between \<open>0\<close> and \<open>ln N\<close>; it is \<open>0\<close> exactly when every document
  contains \<open>t\<close>, and positive when fewer than \<open>N\<close> documents contain it.
\<close>

theorem idf_range:
  assumes "doc \<in> set documents" "t \<in> set (snd doc)"
  shows "\<exists>idfs v. compute_idfs documents = Inr idfs \<and> map_of idfs t = Some v
           \<and> 0 \<le> v \<and> v \<le> ln (real (length documents))
           \<and> (v = 0 \<longleftrightarrow> (\<forall>d \<in> set documents. t \<in> set (snd d)))
           \<and> (spec_df documents t < length documents \<longrightarrow> 0 < v)"
proof -
  let ?N = "length documents" and ?f = "spec_df documents t"
  let ?v = "ln (real ?N / real ?f)"
  have f: "0 < ?f" using assms by (simp only: spec_df_pos_iff) blast
  have le: "?f \<le> ?N" by (rule spec_df_le)
  from idf_lookup [OF f] obtain idfs where
    idfs: "compute_idfs documents = Inr idfs" "map_of idfs t = Some ?v" by blast
  note b = ln_ratio_bounds [OF f le]
  have z: "?v = 0 \<longleftrightarrow> (\<forall>d \<in> set documents. t \<in> set (snd d))"
    by (simp only: b(3) spec_df_full_iff)
  have "0 < ?v" if "?f < ?N"
  proof -
    from that have "?f \<noteq> ?N" by simp
    then have "?v \<noteq> 0" by (simp only: b(3)) simp
    with b(1) show ?thesis by linarith
  qed
  with idfs b(1,2) z show ?thesis by blast
qed

theorem idf_range_witness:
  "(''a.txt'', [''cat'', ''sat'']) \<in> set [(''a.txt'', [''cat'', ''sat'']), (''b.txt'', [''cat''])]
   \<and> ''sat'' \<in> set (snd (''a.txt'', [''cat'', ''sat'']))
   \<and> ''cat'' \<in> set (snd (''a.txt'', [''cat'', ''sat'']))
   \<and> (\<exists>idfs v. compute_idfs [(''a.txt'', [''cat'', ''sat'']), (''b.txt'', [''cat''])] = Inr idfs
          \<and> map_of idfs ''sat'' = Some v \<and> 0 < v \<and> v \<le> ln 2
          \<and> map_of idfs ''cat'' = Some 0)"
proof -
  let ?doc = "(''a.txt'', [''cat'', ''sat''])"
  let ?docs = "[?doc, (''b.txt'', [''cat''])]"
  have h1: "?doc \<in> set ?docs" by simp
  have h2: "''sat'' \<in> set (snd ?doc)" by simp
  have h3: "''cat'' \<in> set (snd ?doc)" by simp
  have lt: "spec_df ?docs ''sat'' < length ?docs" by (simp add: spec_df_def)
  have everywhere: "\<forall>d \<in> set ?docs. ''cat'' \<in> set (snd d)" by simp
  from idf_range [OF h1 h2] obtain idfs v where
    sat: "compute_idfs ?docs = Inr idfs" "map_of idfs ''sat'' = Some v"
    "v \<le> ln (real (length ?docs))" "spec_df ?docs ''sat'' < length ?docs \<longrightarrow> 0 < v"
    by blast
  from idf_range [OF h1 h3] obtain idfs' w where
    cat: "compute_idfs ?docs = Inr idfs'" "map_of idfs' ''cat'' = Some w"
    "w = 0 \<longleftrightarrow> (\<forall>d \<in> set ?docs. ''cat'' \<in> set (snd d))"
    by blast
  from cat(3) everywhere have "w = 0" by (simp only:)
  moreover from sat(1) cat(1) have "idfs' = idfs" by simp
  ultimately have "map_of idfs ''cat'' = Some 0" using cat(2) by simp
  with sat lt have "compute_idfs ?docs = Inr idfs \<and> map_of idfs ''sat'' = Some v
      \<and> 0 < v \<and> v \<le> ln 2 \<and> map_of idfs ''cat'' = Some 0"
    by simp
  with h1 h2 h3 show ?thesis by blast
qed

lemma spec_df_append:
  "spec_df (documents @ [(d, ws)]) t = spec_df documents t + (if t \<in> set ws then 1 else 0)"
  by (simp add: spec_df_def)

lemma ln_ratio_mono:
  fixes N f :: nat
  assumes "0 < f" "f \<le> N"
  shows "ln (real (N + 1) / real (f + 1)) \<le> ln (real N / real f)"
proof -
  have "real f * real (N + 1) \<le> real N * real (f + 1)"
  proof -
    have "f * (N + 1) \<le> N * (f + 1)" using assms by (simp add: algebra_simps)
    then have "real (f * (N + 1)) \<le> real (N * (f + 1))" by (simp only: of_nat_le_iff)
    then show ?thesis by (simp only: of_nat_mult)
  qed
  then have "real (N + 1) / real (f + 1) \<le> real N / real f"
    using assms by (simp add: field_simps)
  moreover have "0 < real (N + 1) / real (f + 1)" by simp
  moreover have "0 < real N / real f" using assms by simp
  ultimately show ?thesis by (simp only: ln_le_cancel_iff)
qed

text \<open>
  Claim C8: storing the token sequence of an existing document once more under a fresh
  identifier raises the document frequency of each of its terms by exactly one, and
  the IDF value of such a term on the enlarged mapping is at most its old value.
\<close>

theorem duplicate_document:
  assumes "(d, ws) \<in> set documents" "d' \<notin> set (map fst documents)" "t \<in> set ws"
  shows "dict_get (doc_frequency (dict_set documents d' ws)) t 0 =
           dict_get (doc_frequency documents) t 0 + 1
         \<and> (\<exists>idfs idfs' v v'. compute_idfs documents = Inr idfs
               \<and> compute_idfs (dict_set documents d' ws) = Inr idfs'
               \<and> map_of idfs t = Some v \<and> map_of idfs' t = Some v' \<and> v' \<le> v)"
proof -
  let ?docs' = "documents @ [(d', ws)]"
  have app: "dict_set documents d' ws = ?docs'" by (rule dict_set_fresh [OF assms(2)])
  have df': "spec_df ?docs' t = spec_df documents t + 1"
    using assms(3) by (simp add: spec_df_append)
  have f: "0 < spec_df documents t"
    using assms(1,3) by (simp only: spec_df_pos_iff) force
  have le: "spec_df documents t \<le> length documents" by (rule spec_df_le)
  from idf_lookup [OF f] obtain idfs where idfs: "compute_idfs documents = Inr idfs"
    "map_of idfs t = Some (ln (real (length documents) / real (spec_df documents t)))"
    by blast
  have f': "0 < spec_df ?docs' t" by (simp add: df')
  from idf_lookup [OF f'] obtain idfs' where idfs': "compute_idfs ?docs' = Inr idfs'"
    "map_of idfs' t = Some (ln (real (length ?docs') / real (spec_df ?docs' t)))"
    by blast
  have len: "length ?docs' = length documents + 1" by simp
  have "ln (real (length ?docs') / real (spec_df ?docs' t))
        \<le> ln (real (length documents) / real (spec_df documents t))"
    by (simp only: len df') (rule ln_ratio_mono [OF f le])
  with idfs idfs' have "\<exists>idfs idfs' v v'. compute_idfs documents = Inr idfs
               \<and> compute_idfs ?docs' = Inr idfs'
               \<and> map_of idfs t = Some v \<and> map_of idfs' t = Some v' \<and> v' \<le> v"
    by blast
  moreover have "dict_get (doc_frequency ?docs') t 0 = dict_get (doc_frequency documents) t 0 + 1"
    by (simp only: dict_get_doc_frequency df')
  ultimately show ?thesis by (simp only: app) 
qed

theorem duplicate_document_witness:
  "(''a.txt'', [''cat'', ''sat'']) \<in> set [(''a.txt'', [''cat'', ''sat'']), (''b.txt'', [''cat''])]
   \<and> ''c.txt'' \<notin> set (map fst [(''a.txt'', [''cat'', ''sat'']), (''b.txt'', [''cat''])])
   \<and> ''sat'' \<in> set [''cat'', ''sat'']
   \<and> dict_get (doc_frequency
        (dict_set [(''a.txt'', [''cat'', ''sat'']), (''b.txt'', [''cat''])] ''c.txt''
           [''cat'', ''sat''])) ''sat'' 0 = 2"
proof -
  let ?docs = "[(''a.txt'', [''cat'', ''sat'']), (''b.txt'', [''cat''])]"
  have h1: "(''a.txt'', [''cat'', ''sat'']) \<in> set ?docs" by simp
  have h2: "''c.txt'' \<notin> set (map fst ?docs)" by simp
  have h3: "''sat'' \<in> set [''cat'', ''sat'']" by simp
  have old: "dict_get (doc_frequency ?docs) ''sat'' 0 = 1"
    by (simp add: doc_frequency_def count_document_def dict_get_def)
  from duplicate_document [OF h1 h2 h3] have
    "dict_get (doc_frequency (dict_set ?docs ''c.txt'' [''cat'', ''sat''])) ''sat'' 0 =
       dict_get (doc_frequency ?docs) ''sat'' 0 + 1" by blast
  then have "dict_get (doc_frequency (dict_set ?docs ''c.txt'' [''cat'', ''sat''])) ''sat'' 0 = 2"
    by (simp only: old)
  with h1 h2 h3 show ?thesis by blast
qed

section \<open>Sorting in descending order and slicing\<close>

lemma set_sorted_reverse: "set (sorted_reverse f xs) = set xs"
  by (simp add: sorted_reverse_def)

lemma length_sorted_reverse: "length (sorted_reverse f xs) = length xs"
  by (simp add: sorted_reverse_def)

lemma distinct_sorted_reverse: "distinct (sorted_reverse f xs) = distinct xs"
  by (simp add: sorted_reverse_def)

lemma sorted_reverse_descending:
  "sorted_wrt (\<lambda>a b. f b \<le> f a) (sorted_reverse f xs)"
proof -
  have "sorted (map f (sort_key f (rev xs)))" by (rule sorted_sort_key)
  then have "sorted_wrt (\<lambda>a b. f a \<le> f b) (sort_key f (rev xs))"
    by (simp only: sorted_map)
  then show ?thesis
    by (simp only: sorted_reverse_def sorted_wrt_rev)
qed

lemma sorted_reverse_stable:
  "filter (\<lambda>y. f y = k) (sorted_reverse f xs) = filter (\<lambda>y. f y = k) xs"
  by (simp add: sorted_reverse_def rev_filter [symmetric] sort_key_stable)

lemma slice_to_take: "\<exists>m. slice_to n xs = take m xs"
  by (auto simp: slice_to_def)

lemma length_slice_to: "0 \<le> n \<Longrightarrow> length (slice_to n xs) = min (nat n) (length xs)"
  by (simp add: slice_to_def min_def)

lemma slice_to_map: "slice_to n (map h xs) = map h (slice_to n xs)"
  by (simp add: slice_to_def take_map)

lemma filter_keeps_order:
  assumes "i < j" "j < length xs" "P (xs ! i)" "P (xs ! j)"
  shows "\<exists>a b. a < b \<and> b < length (filter P xs)
           \<and> filter P xs ! a = xs ! i \<and> filter P xs ! b = xs ! j"
proof -
  let ?ys = "drop (Suc i) xs"
  have i: "i < length xs" using assms(1,2) by simp
  have xs: "xs = take i xs @ xs ! i # ?ys" using i by (rule id_take_nth_drop)
  have j': "j - Suc i < length ?ys" using assms(1,2) by simp
  have nth: "?ys ! (j - Suc i) = xs ! j" using assms(1,2) by simp
  have ys: "?ys = take (j - Suc i) ?ys @ xs ! j # drop (Suc (j - Suc i)) ?ys"
    using id_take_nth_drop [OF j'] by (simp only: nth)
  let ?A = "filter P (take i xs)" and ?B = "filter P (take (j - Suc i) ?ys)"
  let ?C = "filter P (drop (Suc (j - Suc i)) ?ys)"
  have "filter P xs = filter P (take i xs) @ filter P (xs ! i # ?ys)"
    by (subst xs) (simp only: filter_append)
  also have "\<dots> = ?A @ xs ! i # filter P ?ys" using assms(3) by simp
  also have "filter P ?ys = ?B @ xs ! j # ?C"
    by (subst ys) (simp add: assms(4))
  finally have f: "filter P xs = ?A @ xs ! i # ?B @ xs ! j # ?C" .
  let ?a = "length ?A" and ?b = "length ?A + Suc (length ?B)"
  have "?a < ?b" by simp
  moreover have "?b < length (filter P xs)" by (subst f) simp
  moreover have "filter P xs ! ?a = xs ! i" by (subst f) simp
  moreover have "filter P xs ! ?b = xs ! j"
    by (subst f) (simp add: nth_append nth_Cons')
  ultimately show ?thesis by blast
qed

lemma filter_from_order:
  assumes "a < b" "b < length (filter P xs)"
  shows "\<exists>i j. i < j \<and> j < length xs \<and> xs ! i = filter P xs ! a \<and> xs ! j = filter P xs ! b"
  using assms
proof (induction xs arbitrary: a b)
  case Nil
  then show ?case by simp
next
  case (Cons x xs)
  show ?case
  proof (cases "P x")
    case False
    with Cons.prems have "b < length (filter P xs)" by simp
    from Cons.IH [OF Cons.prems(1) this] obtain i j where
      "i < j" "j < length xs" "xs ! i = filter P xs ! a" "xs ! j = filter P xs ! b" by blast
    with False have "Suc i < Suc j \<and> Suc j < length (x # xs)
        \<and> (x # xs) ! Suc i = filter P (x # xs) ! a \<and> (x # xs) ! Suc j = filter P (x # xs) ! b"
      by simp
    then show ?thesis by blast
  next
    case True
    show ?thesis
    proof (cases a)
      case 0
      from Cons.prems True have "b - 1 < length (filter P xs)" by simp
      then have "filter P xs ! (b - 1) \<in> set (filter P xs)" by (rule nth_mem)
      then have "filter P xs ! (b - 1) \<in> set xs" by simp
      then obtain j where j: "j < length xs" "xs ! j = filter P xs ! (b - 1)"
        by (auto simp: in_set_conv_nth)
      have "0 < Suc j \<and> Suc j < length (x # xs)
          \<and> (x # xs) ! 0 = filter P (x # xs) ! a \<and> (x # xs) ! Suc j = filter P (x # xs) ! b"
        using j True 0 Cons.prems(1) by (simp add: nth_Cons')
      then show ?thesis by blast
    next
      case (Suc a')
      then obtain b' where b': "b = Suc b'" using Cons.prems(1) by (cases b) simp_all
      have "a' < b'" "b' < length (filter P xs)"
        using Cons.prems True Suc b' by simp_all
      from Cons.IH [OF this] obtain i j where
        "i < j" "j < length xs" "xs ! i = filter P xs ! a'" "xs ! j = filter P xs ! b'" by blast
      with True Suc b' have "Suc i < Suc j \<and> Suc j < length (x # xs)
        \<and> (x # xs) ! Suc i = filter P (x # xs) ! a \<and> (x # xs) ! Suc j = filter P (x # xs) ! b"
        by simp
      then show ?thesis by blast
    qed
  qed
qed

lemma sorted_reverse_keeps_ties:
  assumes "i < j" "j < length xs" "f (sorted_reverse f xs ! i) = f (sorted_reverse f xs ! j)"
  shows "\<exists>i' j'. i' < j' \<and> j' < length xs
           \<and> xs ! i' = sorted_reverse f xs ! i \<and> xs ! j' = sorted_reverse f xs ! j"
proof -
  let ?S = "sorted_reverse f xs" and ?k = "f (sorted_reverse f xs ! j)"
  let ?P = "\<lambda>y. f y = ?k"
  have j: "j < length ?S" using assms(2) by (simp only: length_sorted_reverse)
  from filter_keeps_order [of i j ?S ?P, OF assms(1) j assms(3)] obtain a b where
    ab: "a < b" "b < length (filter ?P ?S)" "filter ?P ?S ! a = ?S ! i" "filter ?P ?S ! b = ?S ! j"
    by blast
  have eq: "filter ?P ?S = filter ?P xs" by (rule sorted_reverse_stable)
  from ab have "a < b" "b < length (filter ?P xs)" by (simp_all only: eq)
  from filter_from_order [OF this] obtain i' j' where
    "i' < j'" "j' < length xs" "xs ! i' = filter ?P xs ! a" "xs ! j' = filter ?P xs ! b"
    by blast
  with ab(3,4) show ?thesis by (simp only: eq) blast
qed

lemma sorted_reverse_nth_le:
  assumes "i < j" "j < length xs"
  shows "f (sorted_reverse f xs ! j) \<le> f (sorted_reverse f xs ! i)"
proof -
  have "j < length (sorted_reverse f xs)" using assms(2) by (simp only: length_sorted_reverse)
  from sorted_wrt_nth_less [OF sorted_reverse_descending assms(1) this] show ?thesis .
qed

section \<open>Unfolding the ranking functions on concrete inputs\<close>

lemmas ranking_eval = top_files_def file_scores_def tf_idf_sum_def dict_get_def
  sorted_reverse_def slice_to_def top_sentences_def sentence_score_def py_sum_def
  py_truediv_def

section \<open>Properties of top\_files\<close>

lemma fst_score_entry: "fst (score_entry query idfs p) = fst p"
  by (cases p) (simp add: score_entry_def)

lemma snd_score_entry: "snd (score_entry query idfs p) = tf_idf_sum query (snd p) idfs"
  by (cases p) (simp add: score_entry_def)

lemma map_fst_score_entries: "map fst (map (score_entry query idfs) files) = map fst files"
  by (simp add: comp_def fst_score_entry)

lemma file_scores_fold:
  assumes "distinct (map fst scores @ map fst files)"
  shows "fold (\<lambda>(filename, file_words) scores.
                dict_set scores filename (tf_idf_sum query file_words idfs)) files scores
         = scores @ map (score_entry query idfs) files"
  using assms
proof (induction files arbitrary: scores)
  case Nil
  show ?case by simp
next
  case (Cons p files)
  obtain f ws where p: "p = (f, ws)" by (cases p)
  have fresh: "f \<notin> set (map fst scores)" using Cons.prems by (auto simp: p)
  have step: "dict_set scores f (tf_idf_sum query ws idfs) = scores @ [score_entry query idfs p]"
    using dict_set_fresh [OF fresh] by (simp add: score_entry_def p)
  have d: "distinct (map fst (scores @ [score_entry query idfs p]) @ map fst files)"
    using Cons.prems by (auto simp: p score_entry_def)
  show ?case
    using Cons.IH [OF d] by (simp add: p step)
qed

lemma file_scores_eq:
  "distinct (map fst files) \<Longrightarrow>
   file_scores query files idfs = map (score_entry query idfs) files"
  using file_scores_fold [of "[]" files query idfs] by (simp add: file_scores_def)

lemma fold_conditional_add:
  fixes a :: real
  shows "fold (\<lambda>w acc. if P w then acc + h w else acc) ws a
         = a + sum_list (map h (filter P ws))"
  by (induction ws arbitrary: a) simp_all

lemma tf_idf_sum_sum_list:
  "tf_idf_sum query ws idfs =
     sum_list (map (\<lambda>t. real (count_list ws t) * dict_get idfs t 0)
                 (filter (\<lambda>t. t \<in> set ws) query))"
  by (simp add: tf_idf_sum_def fold_conditional_add)

lemma tf_idf_sum_sum:
  assumes "distinct query"
  shows "tf_idf_sum query ws idfs =
     (\<Sum>t \<in> set query \<inter> set ws. real (count_list ws t) * dict_get idfs t 0)"
proof -
  have d: "distinct (filter (\<lambda>t. t \<in> set ws) query)" using assms by simp
  have s: "set (filter (\<lambda>t. t \<in> set ws) query) = set query \<inter> set ws" by auto
  show ?thesis
    by (simp only: tf_idf_sum_sum_list sum_list_distinct_conv_sum_set [OF d] s)
qed

text \<open>
  Claim C3: the score that \<open>top_files\<close> stores for a file is the sum, over the query
  terms that occur in the file, of the number of occurrences times the IDF value, where
  a term without an entry in \<open>idfs\<close> counts with IDF zero. The query terms that do not
  occur in the file add nothing: the sum over all query terms is the same number. The
  model of \<open>top_files\<close> has no error value, since no operation of the loop can raise.
\<close>

theorem file_score_formula:
  assumes "distinct query" "distinct (map fst files)" "(f, ws) \<in> set files"
  shows "map_of (file_scores query files idfs) f =
           Some (\<Sum>t \<in> set query \<inter> set ws.
                   real (count_list ws t) * (case map_of idfs t of None \<Rightarrow> 0 | Some v \<Rightarrow> v))
         \<and> (\<Sum>t \<in> set query \<inter> set ws.
                   real (count_list ws t) * (case map_of idfs t of None \<Rightarrow> 0 | Some v \<Rightarrow> v))
           = (\<Sum>t \<in> set query.
                   real (count_list ws t) * (case map_of idfs t of None \<Rightarrow> 0 | Some v \<Rightarrow> v))"
proof -
  let ?g = "\<lambda>t. real (count_list ws t) * (case map_of idfs t of None \<Rightarrow> 0 | Some v \<Rightarrow> v)"
  have "(f, tf_idf_sum query ws idfs) \<in> set (map (score_entry query idfs) files)"
    using assms(3) by (force simp: score_entry_def)
  moreover have "distinct (map fst (map (score_entry query idfs) files))"
    using assms(2) by (simp only: map_fst_score_entries)
  ultimately have "map_of (map (score_entry query idfs) files) f = Some (tf_idf_sum query ws idfs)"
    by (simp only: map_of_eq_Some_iff)
  then have "map_of (file_scores query files idfs) f = Some (tf_idf_sum query ws idfs)"
    by (simp only: file_scores_eq [OF assms(2)])
  moreover have "tf_idf_sum query ws idfs = sum ?g (set query \<inter> set ws)"
    by (simp only: tf_idf_sum_sum [OF assms(1)] dict_get_def)
  moreover have "sum ?g (set query \<inter> set ws) = sum ?g (set query)"
  proof (rule sum.mono_neutral_left)
    show "finite (set query)" by simp
    show "set query \<inter> set ws \<subseteq> set query" by simp
    show "\<forall>t \<in> set query - set query \<inter> set ws. ?g t = 0"
      by (simp add: count_list_0_iff)
  qed
  ultimately show ?thesis by simp
qed

theorem file_score_formula_witness:
  "distinct [''x'', ''q''] \<and> distinct (map fst [(''a'', [''x'']), (''b'', [''x'', ''x''])])
   \<and> (''b'', [''x'', ''x'']) \<in> set [(''a'', [''x'']), (''b'', [''x'', ''x''])]
   \<and> (\<Sum>t \<in> set [''x'', ''q''] \<inter> set [''x'', ''x''].
         real (count_list [''x'', ''x''] t)
           * (case map_of [(''x'', 3)] t of None \<Rightarrow> 0 | Some v \<Rightarrow> v)) = 6"
proof -
  let ?q = "[''x'', ''q'']" and ?files = "[(''a'', [''x'']), (''b'', [''x'', ''x''])]"
  let ?idfs = "[(''x'', 3::real)]"
  have h1: "distinct ?q" by simp
  have h2: "distinct (map fst ?files)" by simp
  have h3: "(''b'', [''x'', ''x'']) \<in> set ?files" by simp
  have ev: "map_of (file_scores ?q ?files ?idfs) ''b'' = Some 6"
    by (simp add: ranking_eval)
  from file_score_formula [OF h1 h2 h3, of ?idfs] ev
  have "(\<Sum>t \<in> set ?q \<inter> set [''x'', ''x''].
         real (count_list [''x'', ''x''] t)
           * (case map_of ?idfs t of None \<Rightarrow> 0 | Some v \<Rightarrow> v)) = 6"
    by (simp only: option.inject)
  with h1 h2 h3 show ?thesis by blast
qed

lemma file_scores_member:
  assumes "distinct (map fst files)" "p \<in> set (file_scores query files idfs)"
    "(fst p, ws) \<in> set files"
  shows "snd p = tf_idf_sum query ws idfs"
proof -
  from assms(2) obtain q where q: "q \<in> set files" "p = score_entry query idfs q"
    by (auto simp: file_scores_eq [OF assms(1)])
  then have "fst q = fst p" by (simp add: fst_score_entry)
  with q(1) assms(3) have "snd q = ws"
    using assms(1) by (metis eq_key_imp_eq_value prod.collapse)
  with q(2) show ?thesis by (simp add: snd_score_entry)
qed

lemma file_scores_key_known:
  assumes "distinct (map fst files)" "p \<in> set (file_scores query files idfs)"
  shows "\<exists>ws. (fst p, ws) \<in> set files \<and> snd p = tf_idf_sum query ws idfs"
proof -
  from assms(2) obtain q where q: "q \<in> set files" "p = score_entry query idfs q"
    by (auto simp: file_scores_eq [OF assms(1)])
  then have "(fst p, snd q) \<in> set files \<and> snd p = tf_idf_sum query (snd q) idfs"
    by (simp add: fst_score_entry snd_score_entry)
  then show ?thesis by blast
qed

lemma length_file_scores:
  "distinct (map fst files) \<Longrightarrow> length (file_scores query files idfs) = length files"
  by (simp add: file_scores_eq)

lemma slice_to_nth:
  assumes "j < length (slice_to n xs)"
  shows "j < length xs \<and> slice_to n xs ! j = xs ! j"
proof -
  obtain m where m: "slice_to n xs = take m xs" using slice_to_take by blast
  from assms show ?thesis by (simp add: m)
qed

lemma top_files_nth:
  assumes "j < length (top_files query files idfs n)"
  shows "j < length (file_scores query files idfs) \<and>
         top_files query files idfs n ! j
           = fst (sorted_reverse snd (file_scores query files idfs) ! j)"
proof -
  let ?S = "sorted_reverse snd (file_scores query files idfs)"
  have r: "top_files query files idfs n = map fst (slice_to n ?S)"
    by (simp add: top_files_def)
  from assms have j: "j < length (slice_to n ?S)" by (simp add: r)
  from slice_to_nth [OF j] have "j < length ?S" "slice_to n ?S ! j = ?S ! j" by simp_all
  then show ?thesis using j by (simp add: r length_sorted_reverse)
qed

lemma sorted_scores_known:
  assumes "distinct (map fst files)" "j < length (file_scores query files idfs)"
  shows "\<exists>ws. (fst (sorted_reverse snd (file_scores query files idfs) ! j), ws) \<in> set files
           \<and> snd (sorted_reverse snd (file_scores query files idfs) ! j)
               = tf_idf_sum query ws idfs"
proof -
  let ?F = "file_scores query files idfs"
  have "sorted_reverse snd ?F ! j \<in> set (sorted_reverse snd ?F)"
    using assms(2) by (intro nth_mem) (simp only: length_sorted_reverse)
  then have "sorted_reverse snd ?F ! j \<in> set ?F" by (simp only: set_sorted_reverse)
  from file_scores_key_known [OF assms(1) this] show ?thesis .
qed

lemma top_files_prefix:
  "\<exists>m. top_files query files idfs n
         = map fst (take m (sorted_reverse snd (file_scores query files idfs)))"
proof -
  obtain m where "slice_to n (sorted_reverse snd (file_scores query files idfs))
                  = take m (sorted_reverse snd (file_scores query files idfs))"
    using slice_to_take by blast
  then show ?thesis by (auto simp: top_files_def)
qed

lemma distinct_top_files:
  assumes "distinct (map fst files)"
  shows "distinct (top_files query files idfs n)"
proof -
  let ?F = "file_scores query files idfs"
  obtain m where m: "top_files query files idfs n = map fst (take m (sorted_reverse snd ?F))"
    using top_files_prefix by blast
  have "distinct (map fst ?F)"
    using assms by (simp only: file_scores_eq [OF assms] map_fst_score_entries)
  then have "distinct (map fst (sorted_reverse snd ?F))"
    by (simp add: sorted_reverse_def distinct_map rev_map [symmetric] inj_on_def
        del: rev_map)
  then have "distinct (take m (map fst (sorted_reverse snd ?F)))" by (rule distinct_take)
  then show ?thesis by (simp only: m take_map)
qed

lemma unlisted_file_scores_less:
  assumes d: "distinct (map fst files)"
    and f: "(f, w) \<in> set files" "f \<notin> set (top_files query files idfs n)"
    and i: "i < length (top_files query files idfs n)"
    and wi: "(top_files query files idfs n ! i, wi) \<in> set files"
  shows "tf_idf_sum query w idfs \<le> tf_idf_sum query wi idfs"
proof -
  let ?F = "file_scores query files idfs"
  let ?S = "sorted_reverse snd ?F"
  let ?r = "top_files query files idfs n"
  have F: "?F = map (score_entry query idfs) files" by (rule file_scores_eq [OF d])
  have "score_entry query idfs (f, w) \<in> set ?F" using f(1) by (simp add: F)
  then have "score_entry query idfs (f, w) \<in> set ?S" by (simp only: set_sorted_reverse)
  then obtain p where p: "p < length ?S" "?S ! p = score_entry query idfs (f, w)"
    by (auto simp: in_set_conv_nth)
  have fp: "fst (?S ! p) = f" and sp: "snd (?S ! p) = tf_idf_sum query w idfs"
    by (simp_all add: p(2) score_entry_def)
  from top_files_nth [OF i] have ri: "i < length ?F" "?r ! i = fst (?S ! i)" by simp_all
  have mi: "?S ! i \<in> set ?F"
    using ri(1) nth_mem [of i ?S] by (simp add: length_sorted_reverse set_sorted_reverse)
  have si: "snd (?S ! i) = tf_idf_sum query wi idfs"
    using file_scores_member [OF d mi] wi by (simp only: ri(2))
  have "\<not> p < length ?r"
  proof
    assume "p < length ?r"
    from top_files_nth [OF this] have "?r ! p = f" by (simp add: fp)
    with \<open>p < length ?r\<close> have "f \<in> set ?r" by (metis nth_mem)
    with f(2) show False by simp
  qed
  with i have ip: "i < p" by simp
  have pl: "p < length ?F" using p(1) by (simp only: length_sorted_reverse)
  from sorted_reverse_nth_le [OF ip pl, of snd] show ?thesis by (simp only: sp si)
qed

text \<open>
  Claim C4: for a non-negative \<open>n\<close> the list returned by \<open>top_files\<close> has
  \<open>min n (number of files)\<close> entries; they are names of files, no name twice; the scores
  never increase along the list; and no file left out of the list has a higher score
  than a file in it.
\<close>

theorem top_files_length_sorted:
  assumes "0 \<le> n" "distinct (map fst files)"
  shows "length (top_files query files idfs n) = min (nat n) (length files)
         \<and> distinct (top_files query files idfs n)
         \<and> set (top_files query files idfs n) \<subseteq> set (map fst files)
         \<and> (\<forall>i j. i < j \<and> j < length (top_files query files idfs n) \<longrightarrow>
               (\<exists>wi wj. (top_files query files idfs n ! i, wi) \<in> set files
                  \<and> (top_files query files idfs n ! j, wj) \<in> set files
                  \<and> tf_idf_sum query wj idfs \<le> tf_idf_sum query wi idfs))
         \<and> (\<forall>f w i wi. (f, w) \<in> set files \<and> f \<notin> set (top_files query files idfs n)
                  \<and> i < length (top_files query files idfs n)
                  \<and> (top_files query files idfs n ! i, wi) \<in> set files
               \<longrightarrow> tf_idf_sum query w idfs \<le> tf_idf_sum query wi idfs)"
proof -
  let ?F = "file_scores query files idfs"
  let ?S = "sorted_reverse snd ?F"
  let ?r = "top_files query files idfs n"
  have len: "length ?r = min (nat n) (length files)"
    using assms by (simp add: top_files_def length_slice_to length_sorted_reverse
        length_file_scores)
  have dist: "distinct ?r" by (rule distinct_top_files [OF assms(2)])
  have sub: "set ?r \<subseteq> set (map fst files)"
  proof
    fix f assume "f \<in> set ?r"
    then obtain j where j: "j < length ?r" "?r ! j = f" by (auto simp: in_set_conv_nth)
    from top_files_nth [OF j(1)] have rj: "j < length ?F" "?r ! j = fst (?S ! j)" by simp_all
    from sorted_scores_known [OF assms(2) rj(1)] obtain w where
      "(fst (?S ! j), w) \<in> set files" by blast
    then have "(f, w) \<in> set files" using rj(2) j(2) by simp
    then show "f \<in> set (map fst files)" by force
  qed
  have ord: "\<exists>wi wj. (?r ! i, wi) \<in> set files \<and> (?r ! j, wj) \<in> set files
          \<and> tf_idf_sum query wj idfs \<le> tf_idf_sum query wi idfs"
    if ij: "i < j" "j < length ?r" for i j
  proof -
    from ij have i: "i < length ?r" by simp
    from top_files_nth [OF i] have ri: "i < length ?F" "?r ! i = fst (?S ! i)" by simp_all
    from top_files_nth [OF ij(2)] have rj: "j < length ?F" "?r ! j = fst (?S ! j)" by simp_all
    from sorted_scores_known [OF assms(2) ri(1)] obtain wi where
      wi: "(fst (?S ! i), wi) \<in> set files" "snd (?S ! i) = tf_idf_sum query wi idfs" by blast
    from sorted_scores_known [OF assms(2) rj(1)] obtain wj where
      wj: "(fst (?S ! j), wj) \<in> set files" "snd (?S ! j) = tf_idf_sum query wj idfs" by blast
    have "snd (?S ! j) \<le> snd (?S ! i)" by (rule sorted_reverse_nth_le [OF ij(1) rj(1)])
    with wi wj ri(2) rj(2) show ?thesis by auto
  qed
  have top: "tf_idf_sum query w idfs \<le> tf_idf_sum query wi idfs"
    if "(f, w) \<in> set files \<and> f \<notin> set ?r \<and> i < length ?r \<and> (?r ! i, wi) \<in> set files"
    for f w i wi
    using that unlisted_file_scores_less [OF assms(2), of f w query idfs n i wi] by blast
  from len dist sub ord top show ?thesis by (intro conjI allI impI) blast+
qed

theorem top_files_length_sorted_witness:
  "(0::int) \<le> 2
   \<and> distinct (map fst [(''a'', [''x'']), (''b'', [''x'', ''x'']), (''c'', [''y''])])
   \<and> length (top_files [''x''] [(''a'', [''x'']), (''b'', [''x'', ''x'']), (''c'', [''y''])]
               [(''x'', 1)] 2) = 2
   \<and> distinct (top_files [''x''] [(''a'', [''x'']), (''b'', [''x'', ''x'']), (''c'', [''y''])]
               [(''x'', 1)] 2)
   \<and> (\<exists>wi wj.
         (top_files [''x''] [(''a'', [''x'']), (''b'', [''x'', ''x'']), (''c'', [''y''])]
            [(''x'', 1)] 2 ! 0, wi)
           \<in> set [(''a'', [''x'']), (''b'', [''x'', ''x'']), (''c'', [''y''])]
         \<and> (top_files [''x''] [(''a'', [''x'']), (''b'', [''x'', ''x'']), (''c'', [''y''])]
            [(''x'', 1)] 2 ! 1, wj)
           \<in> set [(''a'', [''x'']), (''b'', [''x'', ''x'']), (''c'', [''y''])]
         \<and> tf_idf_sum [''x''] wj [(''x'', 1)] \<le> tf_idf_sum [''x''] wi [(''x'', 1)])
   \<and> tf_idf_sum [''x''] [''y''] [(''x'', 1)] \<le> tf_idf_sum [''x''] [''x'', ''x''] [(''x'', 1)]"
proof -
  let ?files = "[(''a'', [''x'']), (''b'', [''x'', ''x'']), (''c'', [''y''])]"
  let ?r = "top_files [''x''] ?files [(''x'', 1)] 2"
  have h1: "(0::int) \<le> 2" by simp
  have h2: "distinct (map fst ?files)" by simp
  have ev: "?r = [''b'', ''a'']" by (simp add: ranking_eval)
  note t = top_files_length_sorted [OF h1 h2, of "[''x'']" "[(''x'', 1)]"]
  from t have "length ?r = min (nat 2) (length ?files)" by (rule conjunct1)
  then have len: "length ?r = 2" by simp
  from t have dist: "distinct ?r" by (elim conjE)
  from t have "\<forall>i j. i < j \<and> j < length ?r \<longrightarrow>
               (\<exists>wi wj. (?r ! i, wi) \<in> set ?files \<and> (?r ! j, wj) \<in> set ?files
                  \<and> tf_idf_sum [''x''] wj [(''x'', 1)] \<le> tf_idf_sum [''x''] wi [(''x'', 1)])"
    by (elim conjE)
  from this [rule_format, of 0 1] len have
    ord: "\<exists>wi wj. (?r ! 0, wi) \<in> set ?files \<and> (?r ! 1, wj) \<in> set ?files
       \<and> tf_idf_sum [''x''] wj [(''x'', 1)] \<le> tf_idf_sum [''x''] wi [(''x'', 1)]"
    by simp
  from t have "\<forall>f w i wi. (f, w) \<in> set ?files \<and> f \<notin> set ?r \<and> i < length ?r
                  \<and> (?r ! i, wi) \<in> set ?files
               \<longrightarrow> tf_idf_sum [''x''] w [(''x'', 1)] \<le> tf_idf_sum [''x''] wi [(''x'', 1)]"
    by (elim conjE)
  from this [rule_format, of "''c''" "[''y'']" 0 "[''x'', ''x'']"] have
    top: "tf_idf_sum [''x''] [''y''] [(''x'', 1)] \<le> tf_idf_sum [''x''] [''x'', ''x''] [(''x'', 1)]"
    by (simp add: ev)
  from h1 h2 len dist ord top show ?thesis by (intro conjI)
qed

lemma same_members:
  assumes "\<forall>t. count_list ws' t = k * count_list ws t" "0 < k"
  shows "set ws' = set ws"
proof -
  have "t \<in> set ws' \<longleftrightarrow> t \<in> set ws" for t
  proof -
    have "t \<in> set ws' \<longleftrightarrow> count_list ws' t \<noteq> 0" by (simp add: count_list_0_iff)
    also have "\<dots> \<longleftrightarrow> count_list ws t \<noteq> 0" using assms by simp
    also have "\<dots> \<longleftrightarrow> t \<in> set ws" by (simp add: count_list_0_iff)
    finally show ?thesis .
  qed
  then show ?thesis by blast
qed

lemma insort_key_map:
  assumes "\<And>a b. f (h a) \<le> f (h b) \<longleftrightarrow> f a \<le> f b"
  shows "insort_key f (h x) (map h ys) = map h (insort_key f x ys)"
  by (induction ys) (simp_all add: assms)

lemma sort_key_map:
  assumes "\<And>a b. f (h a) \<le> f (h b) \<longleftrightarrow> f a \<le> f b"
  shows "sort_key f (map h xs) = map h (sort_key f xs)"
  by (induction xs) (simp_all add: insort_key_map [of f h, OF assms])

lemma sorted_reverse_map:
  assumes "\<And>a b. f (h a) \<le> f (h b) \<longleftrightarrow> f a \<le> f b"
  shows "sorted_reverse f (map h xs) = map h (sorted_reverse f xs)"
proof -
  have "sort_key f (rev (map h xs)) = map h (sort_key f (rev xs))"
    by (simp only: rev_map sort_key_map [of f h, OF assms])
  then show ?thesis by (simp only: sorted_reverse_def rev_map)
qed

lemma same_keys:
  assumes "list_all2 (\<lambda>p p'. fst p' = fst p \<and> Q p p') files files'"
  shows "map fst files' = map fst files"
  using assms by (induction rule: list_all2_induct) simp_all

section \<open>Scaling the counts of a file\<close>

text \<open>
  Rounding to binary64 commutes with a multiplication by a power of two, returns a
  representable number unchanged, and is computed from the binade of its argument.
\<close>

lemma b64_round_scale: "b64_round (2 ^ j * x) = 2 ^ j * b64_round x"
proof (cases "x = 0")
  case True
  then show ?thesis by (simp add: b64_round_def)
next
  case False
  then have pos: "0 < \<bar>x\<bar>" by simp
  have "log 2 \<bar>2 ^ j * x\<bar> = log 2 (2 ^ j * \<bar>x\<bar>)" by (simp add: abs_mult)
  also have "\<dots> = log 2 (2 ^ j) + log 2 \<bar>x\<bar>" using pos by (simp add: log_mult_pos)
  also have "\<dots> = real j + log 2 \<bar>x\<bar>" by (simp add: log_nat_power)
  finally have "\<lfloor>log 2 \<bar>2 ^ j * x\<bar>\<rfloor> = \<lfloor>log 2 \<bar>x\<bar> + of_int (int j)\<rfloor>"
    by (simp add: add.commute)
  then have fl: "\<lfloor>log 2 \<bar>2 ^ j * x\<bar>\<rfloor> = \<lfloor>log 2 \<bar>x\<bar>\<rfloor> + int j"
    by (simp only: floor_add_int)
  define e where "e = \<lfloor>log 2 \<bar>x\<bar>\<rfloor> - 52"
  have e': "\<lfloor>log 2 \<bar>2 ^ j * x\<bar>\<rfloor> - 52 = e + int j" by (simp add: fl e_def)
  have pw: "(2::real) powi (e + int j) = 2 powi e * 2 ^ j"
    by (simp add: power_int_add)
  have q: "2 ^ j * x / (2 powi e * 2 ^ j) = x / 2 powi e" by simp
  have "b64_round (2 ^ j * x)
        = of_int (round_half_even (2 ^ j * x / 2 powi (e + int j))) * 2 powi (e + int j)"
    using False by (simp add: b64_round_def e' Let_def)
  also have "\<dots> = of_int (round_half_even (x / 2 powi e)) * (2 powi e * 2 ^ j)"
    by (simp only: pw q)
  also have "\<dots> = 2 ^ j * b64_round x"
    using False by (simp add: b64_round_def e_def Let_def)
  finally show ?thesis .
qed

lemma b64_round_eval:
  assumes "2 powi E \<le> \<bar>x\<bar>" "\<bar>x\<bar> < 2 powi (E + 1)"
  shows "b64_round x = of_int (round_half_even (x / 2 powi (E - 52))) * 2 powi (E - 52)"
proof -
  have "(0::real) < 2 powi E" by simp
  with assms(1) have pos: "0 < \<bar>x\<bar>" by linarith
  then have nz: "x \<noteq> 0" by auto
  have p1: "(2::real) powr real_of_int E = 2 powi E"
    by (rule powr_real_of_int') simp_all
  have p2: "(2::real) powr (real_of_int E + 1) = 2 powi (E + 1)"
    using powr_real_of_int' [of 2 "E + 1"] by simp
  have "\<lfloor>log 2 \<bar>x\<bar>\<rfloor> = E"
    using assms pos by (simp add: floor_log_eq_powr_iff p1 p2)
  then show ?thesis using nz by (simp add: b64_round_def Let_def)
qed

lemma round_half_even_of_int: "round_half_even (of_int n) = n"
  by (simp add: round_half_even_def)

lemma round_half_even_close: "\<bar>of_int (round_half_even y) - y\<bar> \<le> 1 / 2"
proof -
  have "of_int \<lfloor>y\<rfloor> \<le> y" "y < of_int \<lfloor>y\<rfloor> + 1" by linarith+
  then show ?thesis by (auto simp: round_half_even_def Let_def)
qed

lemma b64_round_idem: "b64_round (b64_round x) = b64_round x"
proof (cases "x = 0")
  case True
  then show ?thesis by (simp add: b64_round_def)
next
  case False
  define E where "E = \<lfloor>log 2 \<bar>x\<bar>\<rfloor>"
  define e where "e = E - 52"
  define y where "y = x / 2 powi e"
  define n where "n = round_half_even y"
  have pos: "0 < \<bar>x\<bar>" using False by simp
  have p1: "(2::real) powr real_of_int E = 2 powi E"
    by (rule powr_real_of_int') simp_all
  have p2: "(2::real) powr (real_of_int E + 1) = 2 powi (E + 1)"
    using powr_real_of_int' [of 2 "E + 1"] by simp
  have "2 powr real_of_int E \<le> \<bar>x\<bar> \<and> \<bar>x\<bar> < 2 powr (real_of_int E + 1)"
    using floor_log_eq_powr_iff [of "\<bar>x\<bar>" 2 E] pos by (simp add: E_def)
  then have br: "2 powi E \<le> \<bar>x\<bar>" "\<bar>x\<bar> < 2 powi (E + 1)"
    unfolding p1 p2 by simp_all
  have pe: "(0::real) < 2 powi e" by simp
  have E52: "(2::real) powi E = 2 ^ 52 * 2 powi e"
    by (simp add: e_def power_int_diff)
  have E53: "(2::real) powi (E + 1) = 2 ^ 53 * 2 powi e"
    by (simp add: e_def power_int_diff power_int_add)
  have ay: "\<bar>y\<bar> = \<bar>x\<bar> / 2 powi e" by (simp add: y_def abs_divide)
  have y1: "2 ^ 52 \<le> \<bar>y\<bar>" using br(1) pe by (simp add: ay E52 pos_le_divide_eq)
  have y2: "\<bar>y\<bar> < 2 ^ 53" using br(2) pe by (simp add: ay E53 pos_divide_less_eq)
  have cl: "\<bar>of_int n - y\<bar> \<le> 1 / 2" unfolding n_def by (rule round_half_even_close)
  have "2 ^ 52 - 1 / 2 \<le> \<bar>real_of_int n\<bar>" using y1 cl by linarith
  then have "real_of_int (2 ^ 52 - 1) < of_int \<bar>n\<bar>" by simp
  then have "(2 ^ 52 - 1 :: int) < \<bar>n\<bar>" by (simp only: of_int_less_iff)
  then have n1: "2 ^ 52 \<le> \<bar>n\<bar>" by simp
  have "\<bar>real_of_int n\<bar> < 2 ^ 53 + 1" using y2 cl by linarith
  then have "of_int \<bar>n\<bar> < real_of_int (2 ^ 53 + 1)" by simp
  then have "\<bar>n\<bar> < (2 ^ 53 + 1 :: int)" by (simp only: of_int_less_iff)
  then have n2: "\<bar>n\<bar> \<le> 2 ^ 53" by simp
  have R: "b64_round x = real_of_int n * 2 powi e"
    using False by (simp add: b64_round_def Let_def E_def e_def y_def n_def)
  have az: "\<bar>real_of_int n * 2 powi e\<bar> = of_int \<bar>n\<bar> * 2 powi e" by (simp add: abs_mult)
  show ?thesis
  proof (cases "\<bar>n\<bar> = 2 ^ 53")
    case False
    with n2 have lt: "\<bar>n\<bar> < 2 ^ 53" by simp
    have lo: "2 powi E \<le> \<bar>real_of_int n * 2 powi e\<bar>"
    proof -
      have "real_of_int (2 ^ 52) \<le> of_int \<bar>n\<bar>" using n1 by (simp only: of_int_le_iff)
      then have "(2 ^ 52 :: real) \<le> of_int \<bar>n\<bar>" by simp
      then show ?thesis using pe by (simp only: az E52 mult_le_cancel_right_pos)
    qed
    have hi: "\<bar>real_of_int n * 2 powi e\<bar> < 2 powi (E + 1)"
    proof -
      have "of_int \<bar>n\<bar> < real_of_int (2 ^ 53)" using lt by (simp only: of_int_less_iff)
      then have "of_int \<bar>n\<bar> < (2 ^ 53 :: real)" by simp
      then show ?thesis using pe by (simp only: az E53 mult_less_cancel_right_pos)
    qed
    have "b64_round (real_of_int n * 2 powi e)
          = of_int (round_half_even (real_of_int n * 2 powi e / 2 powi (E - 52))) * 2 powi (E - 52)"
      by (rule b64_round_eval [OF lo hi])
    also have "\<dots> = real_of_int n * 2 powi e"
      by (simp add: e_def [symmetric] round_half_even_of_int)
    finally show ?thesis by (simp only: R)
  next
    case True
    have lo: "2 powi (E + 1) \<le> \<bar>real_of_int n * 2 powi e\<bar>"
      by (simp only: az E53 True) simp
    have hi: "\<bar>real_of_int n * 2 powi e\<bar> < 2 powi (E + 1 + 1)"
    proof -
      have "(2::real) powi (E + 1 + 1) = 2 ^ 54 * 2 powi e"
        by (simp add: e_def power_int_diff power_int_add)
      then show ?thesis using pe by (simp add: az True)
    qed
    obtain h where h: "n = 2 * h"
      using True by (cases "0 \<le> n") (auto intro: that [of "2 ^ 52"] that [of "- (2 ^ 52)"])
    have q: "real_of_int n * 2 powi e / 2 powi (E + 1 - 52) = real_of_int h"
      by (simp add: e_def h power_int_add power_int_diff)
    have "b64_round (real_of_int n * 2 powi e)
          = of_int (round_half_even (real_of_int n * 2 powi e / 2 powi (E + 1 - 52)))
              * 2 powi (E + 1 - 52)"
      by (rule b64_round_eval [OF lo hi])
    also have "\<dots> = real_of_int h * 2 powi (E + 1 - 52)"
      by (simp only: q round_half_even_of_int)
    also have "\<dots> = real_of_int n * 2 powi e"
      by (simp add: e_def h power_int_add power_int_diff)
    finally show ?thesis by (simp only: R)
  qed
qed

lemma fst_score_entry_b64: "fst (score_entry_b64 query idfs p) = fst p"
  by (cases p) (simp add: score_entry_b64_def)

lemma snd_score_entry_b64:
  "snd (score_entry_b64 query idfs p) = tf_idf_sum_b64 query (snd p) idfs"
  by (cases p) (simp add: score_entry_b64_def)

lemma file_scores_b64_fold:
  assumes "distinct (map fst scores @ map fst files)"
  shows "fold (\<lambda>(filename, file_words) scores.
                dict_set scores filename (tf_idf_sum_b64 query file_words idfs)) files scores
         = scores @ map (score_entry_b64 query idfs) files"
  using assms
proof (induction files arbitrary: scores)
  case Nil
  show ?case by simp
next
  case (Cons p files)
  obtain f ws where p: "p = (f, ws)" by (cases p)
  have fresh: "f \<notin> set (map fst scores)" using Cons.prems by (auto simp: p)
  have step: "dict_set scores f (tf_idf_sum_b64 query ws idfs)
              = scores @ [score_entry_b64 query idfs p]"
    using dict_set_fresh [OF fresh] by (simp add: score_entry_b64_def p)
  have d: "distinct (map fst (scores @ [score_entry_b64 query idfs p]) @ map fst files)"
    using Cons.prems by (auto simp: p score_entry_b64_def)
  show ?case
    using Cons.IH [OF d] by (simp add: p step)
qed

lemma file_scores_b64_eq:
  "distinct (map fst files) \<Longrightarrow>
   file_scores_b64 query files idfs = map (score_entry_b64 query idfs) files"
  using file_scores_b64_fold [of "[]" files query idfs] by (simp add: file_scores_b64_def)

lemma b64_step_scale:
  "b64_add (2 ^ j * a) (b64_mul (b64_of_nat (2 ^ j * c)) d)
   = 2 ^ j * b64_add a (b64_mul (b64_of_nat c) d)"
proof -
  have "b64_of_nat (2 ^ j * c) = 2 ^ j * b64_of_nat c"
    using b64_round_scale [of j "real c"] by (simp add: b64_of_nat_def)
  then have "b64_mul (b64_of_nat (2 ^ j * c)) d = 2 ^ j * b64_mul (b64_of_nat c) d"
    using b64_round_scale [of j "b64_of_nat c * d"] by (simp add: b64_mul_def mult.assoc)
  then have "b64_add (2 ^ j * a) (b64_mul (b64_of_nat (2 ^ j * c)) d)
             = b64_round (2 ^ j * (a + b64_mul (b64_of_nat c) d))"
    by (simp add: b64_add_def distrib_left)
  also have "\<dots> = 2 ^ j * b64_add a (b64_mul (b64_of_nat c) d)"
    by (simp only: b64_round_scale b64_add_def)
  finally show ?thesis .
qed

lemma tf_idf_sum_b64_scaled:
  assumes "\<forall>t. count_list ws' t = 2 ^ j * count_list ws t"
  shows "tf_idf_sum_b64 query ws' idfs = 2 ^ j * tf_idf_sum_b64 query ws idfs"
proof -
  have s: "set ws' = set ws" by (rule same_members [OF assms]) simp
  have "fold (\<lambda>word acc.
            if word \<in> set ws
            then b64_add acc (b64_mul (b64_of_nat (count_list ws' word)) (dict_get idfs word 0))
            else acc) query (2 ^ j * a)
        = 2 ^ j * fold (\<lambda>word acc.
            if word \<in> set ws
            then b64_add acc (b64_mul (b64_of_nat (count_list ws word)) (dict_get idfs word 0))
            else acc) query a" for a
  proof (induction query arbitrary: a)
    case Nil
    show ?case by simp
  next
    case (Cons word query)
    show ?case
    proof (cases "word \<in> set ws")
      case True
      have c: "count_list ws' word = 2 ^ j * count_list ws word" using assms by blast
      show ?thesis
        using True Cons.IH [of "b64_add a (b64_mul (b64_of_nat (count_list ws word))
                                  (dict_get idfs word 0))"]
        by (simp add: c b64_step_scale)
    next
      case False
      then show ?thesis using Cons.IH [of a] by simp
    qed
  qed
  from this [of 0] show ?thesis by (simp add: tf_idf_sum_b64_def s)
qed

lemma scaled_entries_b64:
  assumes "list_all2 (\<lambda>p p'. fst p' = fst p \<and>
              (\<forall>t. count_list (snd p') t = 2 ^ j * count_list (snd p) t)) files files'"
  shows "map (score_entry_b64 query idfs) files'
         = map (\<lambda>e. (fst e, 2 ^ j * snd e)) (map (score_entry_b64 query idfs) files)"
  using assms
proof (induction rule: list_all2_induct)
  case Nil
  show ?case by simp
next
  case (Cons p files p' files')
  from Cons.hyps(1) have "fst p' = fst p"
    "tf_idf_sum_b64 query (snd p') idfs = 2 ^ j * tf_idf_sum_b64 query (snd p) idfs"
    using tf_idf_sum_b64_scaled [of "snd p'" j "snd p" query idfs] by simp_all
  then have "score_entry_b64 query idfs p'
             = (fst (score_entry_b64 query idfs p), 2 ^ j * snd (score_entry_b64 query idfs p))"
    by (simp add: fst_score_entry_b64 snd_score_entry_b64 prod_eq_iff)
  with Cons.IH show ?case by simp
qed

text \<open>
  Claim C9, as amended: when the number of occurrences of every term in a file is
  multiplied by a power of two, the binary64 score of the file is multiplied by exactly
  that factor, and when this is done to every file \<open>top_files\<close> returns the same list as
  before (exponent range unbounded: no product or sum overflows or becomes subnormal).
\<close>

theorem scaling_by_power_of_two:
  assumes "distinct (map fst files)"
    and "list_all2 (\<lambda>p p'. fst p' = fst p \<and>
              (\<forall>t. count_list (snd p') t = 2 ^ j * count_list (snd p) t)) files files'"
  shows "list_all2 (\<lambda>p p'. tf_idf_sum_b64 query (snd p') idfs
                              = 2 ^ j * tf_idf_sum_b64 query (snd p) idfs) files files'
         \<and> top_files_b64 query files' idfs n = top_files_b64 query files idfs n"
proof -
  let ?h = "\<lambda>e::doc_id \<times> real. (fst e, 2 ^ j * snd e)"
  let ?F = "map (score_entry_b64 query idfs) files"
  have keys: "map fst files' = map fst files" by (rule same_keys [OF assms(2)])
  then have d': "distinct (map fst files')" using assms(1) by simp
  have F': "file_scores_b64 query files' idfs = map ?h ?F"
    by (simp only: file_scores_b64_eq [OF d'] scaled_entries_b64 [OF assms(2)])
  have F: "file_scores_b64 query files idfs = ?F" by (rule file_scores_b64_eq [OF assms(1)])
  have mono: "snd (?h a) \<le> snd (?h b) \<longleftrightarrow> snd a \<le> snd b" for a b by simp
  have "sorted_reverse snd (map ?h ?F) = map ?h (sorted_reverse snd ?F)"
    by (rule sorted_reverse_map [of snd ?h, OF mono])
  then have "map fst (slice_to n (sorted_reverse snd (map ?h ?F)))
             = map fst (slice_to n (sorted_reverse snd ?F))"
    by (simp add: slice_to_map comp_def)
  then have rank: "top_files_b64 query files' idfs n = top_files_b64 query files idfs n"
    by (simp only: top_files_b64_def Let_def F F')
  have "list_all2 (\<lambda>p p'. tf_idf_sum_b64 query (snd p') idfs
                              = 2 ^ j * tf_idf_sum_b64 query (snd p) idfs) files files'"
    using assms(2)
  proof (rule list_all2_mono)
    fix p p' :: "doc_id \<times> token list"
    assume "fst p' = fst p \<and> (\<forall>t. count_list (snd p') t = 2 ^ j * count_list (snd p) t)"
    then show "tf_idf_sum_b64 query (snd p') idfs = 2 ^ j * tf_idf_sum_b64 query (snd p) idfs"
      using tf_idf_sum_b64_scaled [of "snd p'" j "snd p" query idfs] by simp
  qed
  with rank show ?thesis by simp
qed

theorem scaling_by_power_of_two_witness:
  "distinct (map fst [(''a'', [''x'']), (''b'', [''x'', ''y''])])
   \<and> list_all2 (\<lambda>p p'. fst p' = fst p \<and>
              (\<forall>t. count_list (snd p') t = 2 ^ 1 * count_list (snd p) t))
        [(''a'', [''x'']), (''b'', [''x'', ''y''])]
        [(''a'', [''x'', ''x'']), (''b'', [''x'', ''y'', ''y'', ''x''])]
   \<and> tf_idf_sum_b64 [''x'', ''y''] [''x'', ''y'', ''y'', ''x'']
         [(''x'', ln2_b64), (''y'', ln2_b64)]
       = 2 * tf_idf_sum_b64 [''x'', ''y''] [''x'', ''y''] [(''x'', ln2_b64), (''y'', ln2_b64)]
   \<and> top_files_b64 [''x'', ''y'']
         [(''a'', [''x'', ''x'']), (''b'', [''x'', ''y'', ''y'', ''x''])]
         [(''x'', ln2_b64), (''y'', ln2_b64)] 1
       = top_files_b64 [''x'', ''y''] [(''a'', [''x'']), (''b'', [''x'', ''y''])]
           [(''x'', ln2_b64), (''y'', ln2_b64)] 1"
proof -
  let ?files = "[(''a'', [''x'']), (''b'', [''x'', ''y''])]"
  let ?files' = "[(''a'', [''x'', ''x'']), (''b'', [''x'', ''y'', ''y'', ''x''])]"
  let ?q = "[''x'', ''y'']" and ?idfs = "[(''x'', ln2_b64), (''y'', ln2_b64)]"
  have h1: "distinct (map fst ?files)" by simp
  have h2: "list_all2 (\<lambda>p p'. fst p' = fst p \<and>
              (\<forall>t. count_list (snd p') t = 2 ^ 1 * count_list (snd p) t)) ?files ?files'"
    by simp
  from scaling_by_power_of_two [OF h1 h2, of ?q ?idfs 1] have
    sc: "list_all2 (\<lambda>p p'. tf_idf_sum_b64 ?q (snd p') ?idfs
                               = 2 ^ 1 * tf_idf_sum_b64 ?q (snd p) ?idfs) ?files ?files'"
    and rk: "top_files_b64 ?q ?files' ?idfs 1 = top_files_b64 ?q ?files ?idfs 1"
    by blast+
  from sc have h3: "tf_idf_sum_b64 ?q [''x'', ''y'', ''y'', ''x''] ?idfs
                = 2 * tf_idf_sum_b64 ?q [''x'', ''y''] ?idfs"
    by simp
  from h1 h2 h3 rk show ?thesis by (intro conjI)
qed

text \<open>
  The binary64 values of the products and sums that occur when the counts of the files
  \<open>[x, y, y]\<close> and \<open>[y, y, y]\<close> are multiplied by three, both terms with IDF \<open>ln2_b64\<close>.
\<close>

lemmas b64_ops = b64_add_def b64_mul_def b64_of_nat_def ln2_b64_def round_half_even_def Let_def

lemma b64_of_nat_values:
  "b64_of_nat 1 = 1" "b64_of_nat 2 = 2" "b64_of_nat 3 = 3" "b64_of_nat 6 = 6" "b64_of_nat 9 = 9"
  using b64_round_eval [of 0 1] b64_round_eval [of 1 2] b64_round_eval [of 1 3]
    b64_round_eval [of 2 6] b64_round_eval [of 3 9]
  by (simp_all add: b64_ops)

lemma b64_mul_ln2_1: "b64_mul 1 ln2_b64 = ln2_b64"
  using b64_round_eval [of "-1" "6243314768165359 / 9007199254740992"]
  by (simp add: b64_ops)

lemma b64_mul_ln2_2: "b64_mul 2 ln2_b64 = 6243314768165359 / 4503599627370496"
  using b64_round_eval [of 0 "2 * (6243314768165359 / 9007199254740992)"]
  by (simp add: b64_ops)

lemma b64_mul_ln2_3: "b64_mul 3 ln2_b64 = 4682486076124019 / 2251799813685248"
  using b64_round_eval [of 1 "3 * (6243314768165359 / 9007199254740992)"]
  by (simp add: b64_ops)

lemma b64_mul_ln2_6: "b64_mul 6 ln2_b64 = 4682486076124019 / 1125899906842624"
  using b64_round_eval [of 2 "6 * (6243314768165359 / 9007199254740992)"]
  by (simp add: b64_ops)

lemma b64_mul_ln2_9: "b64_mul 9 ln2_b64 = 7023729114186029 / 1125899906842624"
  using b64_round_eval [of 2 "9 * (6243314768165359 / 9007199254740992)"]
  by (simp add: b64_ops)

lemma b64_add_0_values:
  "b64_add 0 ln2_b64 = ln2_b64"
  "b64_add 0 (6243314768165359 / 4503599627370496) = 6243314768165359 / 4503599627370496"
  "b64_add 0 (4682486076124019 / 2251799813685248) = 4682486076124019 / 2251799813685248"
  "b64_add 0 (4682486076124019 / 1125899906842624) = 4682486076124019 / 1125899906842624"
  "b64_add 0 (7023729114186029 / 1125899906842624) = 7023729114186029 / 1125899906842624"
  using b64_round_eval [of "-1" "6243314768165359 / 9007199254740992"]
    b64_round_eval [of 0 "6243314768165359 / 4503599627370496"]
    b64_round_eval [of 1 "4682486076124019 / 2251799813685248"]
    b64_round_eval [of 2 "4682486076124019 / 1125899906842624"]
    b64_round_eval [of 2 "7023729114186029 / 1125899906842624"]
  by (simp_all add: b64_ops)

lemma b64_add_one_two:
  "b64_add ln2_b64 (6243314768165359 / 4503599627370496) = 4682486076124019 / 2251799813685248"
  "b64_add (6243314768165359 / 4503599627370496) ln2_b64 = 4682486076124019 / 2251799813685248"
  using b64_round_eval [of 1 "6243314768165359 / 9007199254740992
                               + 6243314768165359 / 4503599627370496"]
  by (simp_all add: b64_ops add.commute)

lemma b64_add_three_six:
  "b64_add (4682486076124019 / 2251799813685248) (4682486076124019 / 1125899906842624)
   = 7023729114186028 / 1125899906842624"
  "b64_add (4682486076124019 / 1125899906842624) (4682486076124019 / 2251799813685248)
   = 7023729114186028 / 1125899906842624"
  using b64_round_eval [of 2 "4682486076124019 / 2251799813685248
                               + 4682486076124019 / 1125899906842624"]
  by (simp_all add: b64_ops add.commute)

lemmas b64_values = b64_of_nat_values b64_mul_ln2_1 b64_mul_ln2_2 b64_mul_ln2_3 b64_mul_ln2_6
  b64_mul_ln2_9 b64_add_0_values b64_add_one_two b64_add_three_six

lemma score_a_before:
  "tf_idf_sum_b64 [''x'', ''y''] [''x'', ''y'', ''y''] [(''x'', ln2_b64), (''y'', ln2_b64)]
   = 4682486076124019 / 2251799813685248"
  "tf_idf_sum_b64 [''y'', ''x''] [''x'', ''y'', ''y''] [(''x'', ln2_b64), (''y'', ln2_b64)]
   = 4682486076124019 / 2251799813685248"
proof -
  let ?idfs = "[(''x'', ln2_b64), (''y'', ln2_b64)]"
  have "tf_idf_sum_b64 [''x'', ''y''] [''x'', ''y'', ''y''] ?idfs
        = b64_add (b64_add 0 (b64_mul (b64_of_nat 1) ln2_b64)) (b64_mul (b64_of_nat 2) ln2_b64)"
    by (simp add: tf_idf_sum_b64_def dict_get_def eval_nat_numeral)
  also have "\<dots> = 4682486076124019 / 2251799813685248" by (simp only: b64_values)
  finally show "tf_idf_sum_b64 [''x'', ''y''] [''x'', ''y'', ''y''] ?idfs
                = 4682486076124019 / 2251799813685248" .
  have "tf_idf_sum_b64 [''y'', ''x''] [''x'', ''y'', ''y''] ?idfs
        = b64_add (b64_add 0 (b64_mul (b64_of_nat 2) ln2_b64)) (b64_mul (b64_of_nat 1) ln2_b64)"
    by (simp add: tf_idf_sum_b64_def dict_get_def eval_nat_numeral)
  also have "\<dots> = 4682486076124019 / 2251799813685248" by (simp only: b64_values)
  finally show "tf_idf_sum_b64 [''y'', ''x''] [''x'', ''y'', ''y''] ?idfs
                = 4682486076124019 / 2251799813685248" .
qed

lemma score_b_before:
  "tf_idf_sum_b64 [''x'', ''y''] [''y'', ''y'', ''y''] [(''x'', ln2_b64), (''y'', ln2_b64)]
   = 4682486076124019 / 2251799813685248"
  "tf_idf_sum_b64 [''y'', ''x''] [''y'', ''y'', ''y''] [(''x'', ln2_b64), (''y'', ln2_b64)]
   = 4682486076124019 / 2251799813685248"
proof -
  let ?idfs = "[(''x'', ln2_b64), (''y'', ln2_b64)]"
  have v: "b64_add 0 (b64_mul (b64_of_nat 3) ln2_b64) = 4682486076124019 / 2251799813685248"
    by (simp only: b64_values)
  have "tf_idf_sum_b64 [''x'', ''y''] [''y'', ''y'', ''y''] ?idfs
        = b64_add 0 (b64_mul (b64_of_nat 3) ln2_b64)"
    by (simp add: tf_idf_sum_b64_def dict_get_def eval_nat_numeral)
  then show "tf_idf_sum_b64 [''x'', ''y''] [''y'', ''y'', ''y''] ?idfs
             = 4682486076124019 / 2251799813685248" by (simp only: v)
  have "tf_idf_sum_b64 [''y'', ''x''] [''y'', ''y'', ''y''] ?idfs
        = b64_add 0 (b64_mul (b64_of_nat 3) ln2_b64)"
    by (simp add: tf_idf_sum_b64_def dict_get_def eval_nat_numeral)
  then show "tf_idf_sum_b64 [''y'', ''x''] [''y'', ''y'', ''y''] ?idfs
             = 4682486076124019 / 2251799813685248" by (simp only: v)
qed

lemma score_a_after:
  "tf_idf_sum_b64 [''x'', ''y'']
     [''x'', ''x'', ''x'', ''y'', ''y'', ''y'', ''y'', ''y'', ''y'']
     [(''x'', ln2_b64), (''y'', ln2_b64)]
   = 7023729114186028 / 1125899906842624"
  "tf_idf_sum_b64 [''y'', ''x'']
     [''x'', ''x'', ''x'', ''y'', ''y'', ''y'', ''y'', ''y'', ''y'']
     [(''x'', ln2_b64), (''y'', ln2_b64)]
   = 7023729114186028 / 1125899906842624"
proof -
  let ?idfs = "[(''x'', ln2_b64), (''y'', ln2_b64)]"
  let ?ws = "[''x'', ''x'', ''x'', ''y'', ''y'', ''y'', ''y'', ''y'', ''y'']"
  have "tf_idf_sum_b64 [''x'', ''y''] ?ws ?idfs
        = b64_add (b64_add 0 (b64_mul (b64_of_nat 3) ln2_b64)) (b64_mul (b64_of_nat 6) ln2_b64)"
    by (simp add: tf_idf_sum_b64_def dict_get_def eval_nat_numeral)
  also have "\<dots> = 7023729114186028 / 1125899906842624" by (simp only: b64_values)
  finally show "tf_idf_sum_b64 [''x'', ''y''] ?ws ?idfs
                = 7023729114186028 / 1125899906842624" .
  have "tf_idf_sum_b64 [''y'', ''x''] ?ws ?idfs
        = b64_add (b64_add 0 (b64_mul (b64_of_nat 6) ln2_b64)) (b64_mul (b64_of_nat 3) ln2_b64)"
    by (simp add: tf_idf_sum_b64_def dict_get_def eval_nat_numeral)
  also have "\<dots> = 7023729114186028 / 1125899906842624" by (simp only: b64_values)
  finally show "tf_idf_sum_b64 [''y'', ''x''] ?ws ?idfs
                = 7023729114186028 / 1125899906842624" .
qed

lemma score_b_after:
  "tf_idf_sum_b64 [''x'', ''y'']
     [''y'', ''y'', ''y'', ''y'', ''y'', ''y'', ''y'', ''y'', ''y'']
     [(''x'', ln2_b64), (''y'', ln2_b64)]
   = 7023729114186029 / 1125899906842624"
  "tf_idf_sum_b64 [''y'', ''x'']
     [''y'', ''y'', ''y'', ''y'', ''y'', ''y'', ''y'', ''y'', ''y'']
     [(''x'', ln2_b64), (''y'', ln2_b64)]
   = 7023729114186029 / 1125899906842624"
proof -
  let ?idfs = "[(''x'', ln2_b64), (''y'', ln2_b64)]"
  let ?ws = "[''y'', ''y'', ''y'', ''y'', ''y'', ''y'', ''y'', ''y'', ''y'']"
  have v: "b64_add 0 (b64_mul (b64_of_nat 9) ln2_b64) = 7023729114186029 / 1125899906842624"
    by (simp only: b64_values)
  have "tf_idf_sum_b64 [''x'', ''y''] ?ws ?idfs = b64_add 0 (b64_mul (b64_of_nat 9) ln2_b64)"
    by (simp add: tf_idf_sum_b64_def dict_get_def eval_nat_numeral)
  then show "tf_idf_sum_b64 [''x'', ''y''] ?ws ?idfs = 7023729114186029 / 1125899906842624"
    by (simp only: v)
  have "tf_idf_sum_b64 [''y'', ''x''] ?ws ?idfs = b64_add 0 (b64_mul (b64_of_nat 9) ln2_b64)"
    by (simp add: tf_idf_sum_b64_def dict_get_def eval_nat_numeral)
  then show "tf_idf_sum_b64 [''y'', ''x''] ?ws ?idfs = 7023729114186029 / 1125899906842624"
    by (simp only: v)
qed

lemma b64_mul_three_times_score:
  "b64_mul 3 (4682486076124019 / 2251799813685248) = 7023729114186028 / 1125899906842624"
  using b64_round_eval [of 2 "3 * (4682486076124019 / 2251799813685248)"]
  by (simp add: b64_ops)

lemmas b64_scores = score_a_before score_b_before score_a_after score_b_after

lemmas b64_ranking = top_files_b64_def file_scores_b64_def sorted_reverse_def slice_to_def

text \<open>
  Claim C9 as stated (any positive factor) does not hold in binary64 arithmetic. With
  the factor three the score of \<open>[y, y, y]\<close> is not multiplied by three, neither as a
  real product nor as a rounded one; and the two files, which tie before and so are
  listed in the order of the mapping, change places. Both enumerations of the query set
  \<open>{x, y}\<close> give the same result.
\<close>

theorem scaling_by_three_changes_ranking:
  "tf_idf_sum_b64 [''x'', ''y''] [''y'', ''y'', ''y'', ''y'', ''y'', ''y'', ''y'', ''y'', ''y'']
       [(''x'', ln2_b64), (''y'', ln2_b64)]
     \<noteq> 3 * tf_idf_sum_b64 [''x'', ''y''] [''y'', ''y'', ''y'']
               [(''x'', ln2_b64), (''y'', ln2_b64)]
   \<and> tf_idf_sum_b64 [''x'', ''y''] [''y'', ''y'', ''y'', ''y'', ''y'', ''y'', ''y'', ''y'', ''y'']
       [(''x'', ln2_b64), (''y'', ln2_b64)]
     \<noteq> b64_mul 3 (tf_idf_sum_b64 [''x'', ''y''] [''y'', ''y'', ''y'']
               [(''x'', ln2_b64), (''y'', ln2_b64)])
   \<and> top_files_b64 [''x'', ''y'']
       [(''a'', [''x'', ''y'', ''y'']), (''b'', [''y'', ''y'', ''y''])]
       [(''x'', ln2_b64), (''y'', ln2_b64)] 2 = [''a'', ''b'']
   \<and> top_files_b64 [''x'', ''y'']
       [(''a'', [''x'', ''x'', ''x'', ''y'', ''y'', ''y'', ''y'', ''y'', ''y'']),
        (''b'', [''y'', ''y'', ''y'', ''y'', ''y'', ''y'', ''y'', ''y'', ''y''])]
       [(''x'', ln2_b64), (''y'', ln2_b64)] 2 = [''b'', ''a'']
   \<and> top_files_b64 [''y'', ''x'']
       [(''a'', [''x'', ''y'', ''y'']), (''b'', [''y'', ''y'', ''y''])]
       [(''x'', ln2_b64), (''y'', ln2_b64)] 2 = [''a'', ''b'']
   \<and> top_files_b64 [''y'', ''x'']
       [(''a'', [''x'', ''x'', ''x'', ''y'', ''y'', ''y'', ''y'', ''y'', ''y'']),
        (''b'', [''y'', ''y'', ''y'', ''y'', ''y'', ''y'', ''y'', ''y'', ''y''])]
       [(''x'', ln2_b64), (''y'', ln2_b64)] 2 = [''b'', ''a'']"
proof (intro conjI)
  show "tf_idf_sum_b64 [''x'', ''y''] [''y'', ''y'', ''y'', ''y'', ''y'', ''y'', ''y'', ''y'', ''y'']
       [(''x'', ln2_b64), (''y'', ln2_b64)]
     \<noteq> 3 * tf_idf_sum_b64 [''x'', ''y''] [''y'', ''y'', ''y'']
               [(''x'', ln2_b64), (''y'', ln2_b64)]"
    by (simp only: b64_scores)
  show "tf_idf_sum_b64 [''x'', ''y''] [''y'', ''y'', ''y'', ''y'', ''y'', ''y'', ''y'', ''y'', ''y'']
       [(''x'', ln2_b64), (''y'', ln2_b64)]
     \<noteq> b64_mul 3 (tf_idf_sum_b64 [''x'', ''y''] [''y'', ''y'', ''y'']
               [(''x'', ln2_b64), (''y'', ln2_b64)])"
    by (simp only: b64_scores b64_mul_three_times_score)
qed (simp_all add: b64_ranking b64_scores)

section \<open>Properties of top\_sentences\<close>

lemma sum_list_ones: "sum_list (map (\<lambda>w. Suc 0) xs) = length xs"
  by (induction xs) simp_all

lemma sentence_score_eq:
  "words \<noteq> [] \<Longrightarrow> sentence_score query words idfs = Inr (score_pair query idfs words)"
  by (simp add: sentence_score_def sum_list_ones py_sum_sum_list py_truediv_def score_pair_def)

lemma sentence_score_empty: "sentence_score query [] idfs = Inl ZeroDivisionError"
  by (simp add: sentence_score_def py_truediv_def)

lemma score_pair_spec:
  assumes "distinct query"
  shows "score_pair query idfs words = (spec_measure query words idfs, spec_density query words)"
proof -
  have d: "distinct (filter (\<lambda>t. t \<in> set words) query)" using assms by simp
  have s: "set (filter (\<lambda>t. t \<in> set words) query) = set query \<inter> set words" by auto
  have "sum_list (map (\<lambda>word. dict_get idfs word 0) (filter (\<lambda>word. word \<in> set words) query))
        = spec_measure query words idfs"
    by (simp only: sum_list_distinct_conv_sum_set [OF d] s spec_measure_def dict_get_def)
  then show ?thesis by (simp add: score_pair_def spec_density_def)
qed

lemma fst_sentence_entry: "fst (sentence_entry query idfs p) = fst p"
  by (cases p) (simp add: sentence_entry_def)

lemma snd_sentence_entry: "snd (sentence_entry query idfs p) = score_pair query idfs (snd p)"
  by (cases p) (simp add: sentence_entry_def)

lemma map_fst_sentence_entries:
  "map fst (map (sentence_entry query idfs) sentences) = map fst sentences"
  by (simp add: comp_def fst_sentence_entry)

lemma sentence_scores_map:
  assumes "distinct (map fst scores @ map fst sentences)" "\<forall>p \<in> set sentences. snd p \<noteq> []"
  shows "sentence_scores query sentences idfs scores
         = Inr (scores @ map (sentence_entry query idfs) sentences)"
  using assms
proof (induction sentences arbitrary: scores)
  case Nil
  show ?case by simp
next
  case (Cons p sentences)
  obtain s ws where p: "p = (s, ws)" by (cases p)
  have ne: "ws \<noteq> []" using Cons.prems(2) by (simp add: p)
  have fresh: "s \<notin> set (map fst scores)" using Cons.prems(1) by (auto simp: p)
  have step: "dict_set scores s (score_pair query idfs ws) = scores @ [sentence_entry query idfs p]"
    using dict_set_fresh [OF fresh] by (simp add: sentence_entry_def p)
  have d: "distinct (map fst (scores @ [sentence_entry query idfs p]) @ map fst sentences)"
    using Cons.prems(1) by (auto simp: p sentence_entry_def)
  have r: "\<forall>q \<in> set sentences. snd q \<noteq> []" using Cons.prems(2) by simp
  show ?case
    using Cons.IH [OF d r] by (simp add: p sentence_score_eq [OF ne] step)
qed

lemma sentence_scores_Inr_nonempty:
  "sentence_scores query sentences idfs scores = Inr result \<Longrightarrow>
   \<forall>p \<in> set sentences. snd p \<noteq> []"
proof (induction sentences arbitrary: scores)
  case Nil
  show ?case by simp
next
  case (Cons p sentences)
  obtain s ws where p: "p = (s, ws)" by (cases p)
  show ?case
  proof (cases "ws = []")
    case True
    with Cons.prems show ?thesis by (simp add: p sentence_score_empty)
  next
    case False
    with Cons.prems have
      "sentence_scores query sentences idfs (dict_set scores s (score_pair query idfs ws))
       = Inr result"
      by (simp add: p sentence_score_eq)
    from Cons.IH [OF this] False show ?thesis by (simp add: p)
  qed
qed

text \<open>
  Claim C5: a sentence with at least one token gets the pair of its matching-word
  measure and its query-term density, both as the loop body computes it and as the
  entry of \<open>sentence_scores\<close> once the loop has run through.
\<close>

theorem sentence_score_formula:
  assumes "distinct query" "words \<noteq> []"
  shows "sentence_score query words idfs
           = Inr (spec_measure query words idfs, spec_density query words)
         \<and> (\<forall>sentences s scores.
               distinct (map fst sentences) \<and> (s, words) \<in> set sentences
               \<and> sentence_scores query sentences idfs [] = Inr scores
               \<longrightarrow> map_of scores s
                     = Some (spec_measure query words idfs, spec_density query words))"
proof -
  have one: "sentence_score query words idfs
               = Inr (spec_measure query words idfs, spec_density query words)"
    by (simp only: sentence_score_eq [OF assms(2)] score_pair_spec [OF assms(1)])
  have "map_of scores s = Some (spec_measure query words idfs, spec_density query words)"
    if h: "distinct (map fst sentences)" "(s, words) \<in> set sentences"
      "sentence_scores query sentences idfs [] = Inr scores" for sentences s scores
  proof -
    have ne: "\<forall>p \<in> set sentences. snd p \<noteq> []"
      by (rule sentence_scores_Inr_nonempty [OF h(3)])
    have "sentence_scores query sentences idfs []
          = Inr ([] @ map (sentence_entry query idfs) sentences)"
      by (rule sentence_scores_map) (simp_all add: h(1) ne)
    with h(3) have sc: "scores = map (sentence_entry query idfs) sentences" by simp
    have "(s, score_pair query idfs words) \<in> set scores"
      using h(2) by (force simp: sc sentence_entry_def)
    moreover have "distinct (map fst scores)"
      using h(1) by (simp only: sc map_fst_sentence_entries)
    ultimately have "map_of scores s = Some (score_pair query idfs words)"
      by (simp only: map_of_eq_Some_iff)
    then show ?thesis by (simp only: score_pair_spec [OF assms(1)])
  qed
  with one show ?thesis by blast
qed

theorem sentence_score_formula_witness:
  "distinct [''x''] \<and> [''x'', ''y''] \<noteq> []
   \<and> sentence_score [''x''] [''x'', ''y''] [(''x'', 1)] = Inr (1, 1 / 2)
   \<and> distinct (map fst [(''s1'', [''x'', ''y'']), (''s2'', [''z''])])
   \<and> (''s1'', [''x'', ''y'']) \<in> set [(''s1'', [''x'', ''y'']), (''s2'', [''z''])]
   \<and> (\<exists>scores. sentence_scores [''x''] [(''s1'', [''x'', ''y'']), (''s2'', [''z''])]
                   [(''x'', 1)] [] = Inr scores
          \<and> map_of scores ''s1'' = Some (1, 1 / 2))"
proof -
  let ?S = "[(''s1'', [''x'', ''y'']), (''s2'', [''z''])]"
  let ?idfs = "[(''x'', 1::real)]"
  have h1: "distinct [''x'']" by simp
  have h2: "[''x'', ''y''] \<noteq> []" by simp
  have h3: "distinct (map fst ?S)" by simp
  have h4: "(''s1'', [''x'', ''y'']) \<in> set ?S" by simp
  note t = sentence_score_formula [OF h1 h2, of ?idfs]
  have m: "spec_measure [''x''] [''x'', ''y''] ?idfs = 1"
    by (simp add: spec_measure_def)
  have d: "spec_density [''x''] [''x'', ''y''] = 1 / 2"
    by (simp add: spec_density_def)
  from t have "sentence_score [''x''] [''x'', ''y''] ?idfs
        = Inr (spec_measure [''x''] [''x'', ''y''] ?idfs, spec_density [''x''] [''x'', ''y''])"
    by blast
  then have one: "sentence_score [''x''] [''x'', ''y''] ?idfs = Inr (1, 1 / 2)"
    by (simp only: m d)
  obtain scores where sc: "sentence_scores [''x''] ?S ?idfs [] = Inr scores"
    by (simp add: ranking_eval)
  from t have "\<forall>sentences s scores.
               distinct (map fst sentences) \<and> (s, [''x'', ''y'']) \<in> set sentences
               \<and> sentence_scores [''x''] sentences ?idfs [] = Inr scores
               \<longrightarrow> map_of scores s
                     = Some (spec_measure [''x''] [''x'', ''y''] ?idfs,
                             spec_density [''x''] [''x'', ''y''])"
    by blast
  from this [rule_format, of ?S "''s1''" scores] h3 h4 sc
  have "map_of scores ''s1'' = Some (1, 1 / 2)" by (simp only: m d)
  with sc have two: "\<exists>scores. sentence_scores [''x''] ?S ?idfs [] = Inr scores
          \<and> map_of scores ''s1'' = Some (1, 1 / 2)" by blast
  from h1 h2 one h3 h4 two show ?thesis by (intro conjI)
qed

lemma sentence_key_snd: "sentence_key e = snd e"
  by (simp add: sentence_key_def)

lemma top_sentences_eq:
  assumes "distinct (map fst sentences)" "\<forall>p \<in> set sentences. snd p \<noteq> []"
  shows "top_sentences query sentences idfs n
         = Inr (map fst (slice_to n
                  (sorted_reverse sentence_key (map (sentence_entry query idfs) sentences))))"
proof -
  have "sentence_scores query sentences idfs []
        = Inr ([] @ map (sentence_entry query idfs) sentences)"
    by (rule sentence_scores_map) (simp_all add: assms)
  then show ?thesis by (simp add: top_sentences_def sentence_key_def)
qed

lemma top_sentences_Inr_nonempty:
  assumes "top_sentences query sentences idfs n = Inr r"
  shows "\<forall>p \<in> set sentences. snd p \<noteq> []"
proof -
  from assms obtain scores where "sentence_scores query sentences idfs [] = Inr scores"
    by (auto simp: top_sentences_def split: sum.splits)
  then show ?thesis by (rule sentence_scores_Inr_nonempty)
qed

lemma ranked_nth:
  assumes "j < length (map fst (slice_to n (sorted_reverse f xs)))"
  shows "j < length xs \<and>
         map fst (slice_to n (sorted_reverse f xs)) ! j = fst (sorted_reverse f xs ! j)"
proof -
  from assms have j: "j < length (slice_to n (sorted_reverse f xs))" by simp
  from slice_to_nth [OF j] show ?thesis using j by (simp add: length_sorted_reverse)
qed

lemma sentence_entry_known:
  assumes "distinct (map fst sentences)"
    "e \<in> set (map (sentence_entry query idfs) sentences)" "(fst e, ws) \<in> set sentences"
  shows "snd e = score_pair query idfs ws"
proof -
  from assms(2) obtain p where p: "p \<in> set sentences" "e = sentence_entry query idfs p"
    by auto
  then have "fst p = fst e" by (simp add: fst_sentence_entry)
  with p(1) assms(3) have "snd p = ws"
    using assms(1) by (metis eq_key_imp_eq_value prod.collapse)
  with p(2) show ?thesis by (simp add: snd_sentence_entry)
qed

lemma sorted_entry_known:
  assumes "distinct (map fst sentences)" "j < length sentences"
    "(fst (sorted_reverse f (map (sentence_entry query idfs) sentences) ! j), ws) \<in> set sentences"
  shows "snd (sorted_reverse f (map (sentence_entry query idfs) sentences) ! j)
         = score_pair query idfs ws"
proof -
  let ?E = "map (sentence_entry query idfs) sentences"
  have "sorted_reverse f ?E ! j \<in> set (sorted_reverse f ?E)"
    using assms(2) by (intro nth_mem) (simp add: length_sorted_reverse)
  then have "sorted_reverse f ?E ! j \<in> set ?E" by (simp only: set_sorted_reverse)
  from sentence_entry_known [OF assms(1) this assms(3)] show ?thesis .
qed

text \<open>
  Claim C6: when every sentence has a token, \<open>top_sentences\<close> returns a list in which a
  sentence with a larger measure stands before one with a smaller measure, and of two
  sentences with the same measure the one with the larger density stands first.
\<close>

theorem top_sentences_order:
  assumes "distinct (map fst sentences)" "\<forall>p \<in> set sentences. snd p \<noteq> []"
  shows "\<exists>r. top_sentences query sentences idfs n = Inr r
           \<and> (\<forall>i j wi wj mi di mj dj.
                 i < length r \<and> j < length r
                 \<and> (r ! i, wi) \<in> set sentences \<and> (r ! j, wj) \<in> set sentences
                 \<and> sentence_score query wi idfs = Inr (mi, di)
                 \<and> sentence_score query wj idfs = Inr (mj, dj)
                 \<and> (mj < mi \<or> (mj = mi \<and> dj < di))
                 \<longrightarrow> i < j)"
proof -
  let ?E = "map (sentence_entry query idfs) sentences"
  let ?S = "sorted_reverse sentence_key ?E"
  let ?r = "map fst (slice_to n ?S)"
  have r: "top_sentences query sentences idfs n = Inr ?r"
    by (rule top_sentences_eq [OF assms])
  have "i < j"
    if h: "i < length ?r" "j < length ?r" "(?r ! i, wi) \<in> set sentences"
      "(?r ! j, wj) \<in> set sentences" "sentence_score query wi idfs = Inr (mi, di)"
      "sentence_score query wj idfs = Inr (mj, dj)" "mj < mi \<or> (mj = mi \<and> dj < di)"
    for i j wi wj mi di mj dj
  proof -
    from ranked_nth [OF h(1)] have i: "i < length ?E" "?r ! i = fst (?S ! i)" by simp_all
    from ranked_nth [OF h(2)] have j: "j < length ?E" "?r ! j = fst (?S ! j)" by simp_all
    have nei: "wi \<noteq> []" and nej: "wj \<noteq> []" using assms(2) h(3,4) by force+
    have ki: "sentence_key (?S ! i) = (mi, di)"
      using sorted_entry_known [of sentences i sentence_key query idfs wi]
        assms(1) i h(3,5) sentence_score_eq [OF nei, of query idfs]
      by (simp add: sentence_key_snd)
    have kj: "sentence_key (?S ! j) = (mj, dj)"
      using sorted_entry_known [of sentences j sentence_key query idfs wj]
        assms(1) j h(4,6) sentence_score_eq [OF nej, of query idfs]
      by (simp add: sentence_key_snd)
    have lt: "sentence_key (?S ! j) < sentence_key (?S ! i)"
      unfolding ki kj less_prod_simp using h(7) by auto
    show ?thesis
    proof (rule ccontr)
      assume "\<not> i < j"
      then consider "j = i" | "j < i" by linarith
      then show False
      proof cases
        case 1
        with lt show False by simp
      next
        case 2
        from sorted_reverse_nth_le [OF 2 i(1), of sentence_key] lt show False by simp
      qed
    qed
  qed
  with r show ?thesis by blast
qed

theorem top_sentences_order_witness:
  "distinct (map fst [(''s1'', [''x'', ''y'']), (''s2'', [''x''])])
   \<and> [''x'', ''y''] \<noteq> [] \<and> [''x''] \<noteq> []
   \<and> (\<exists>r. top_sentences [''x''] [(''s1'', [''x'', ''y'']), (''s2'', [''x''])] [(''x'', 1)] 2
              = Inr r
          \<and> (\<exists>i j. i < j \<and> r ! i = ''s2'' \<and> r ! j = ''s1''))"
proof -
  let ?S = "[(''s1'', [''x'', ''y'']), (''s2'', [''x''])]"
  let ?idfs = "[(''x'', 1::real)]"
  have h1: "distinct (map fst ?S)" by simp
  have h2: "\<forall>p \<in> set ?S. snd p \<noteq> []" by simp
  from top_sentences_order [OF h1 h2, of "[''x'']" ?idfs 2] obtain r where
    r: "top_sentences [''x''] ?S ?idfs 2 = Inr r"
    and ord: "\<And>i j wi wj mi di mj dj.
                 i < length r \<and> j < length r
                 \<and> (r ! i, wi) \<in> set ?S \<and> (r ! j, wj) \<in> set ?S
                 \<and> sentence_score [''x''] wi ?idfs = Inr (mi, di)
                 \<and> sentence_score [''x''] wj ?idfs = Inr (mj, dj)
                 \<and> (mj < mi \<or> (mj = mi \<and> dj < di))
                 \<Longrightarrow> i < j"
    by blast
  have ev: "top_sentences [''x''] ?S ?idfs 2 = Inr [''s2'', ''s1'']"
    by (simp add: ranking_eval)
  with r have rv: "r = [''s2'', ''s1'']" by simp
  have s2: "sentence_score [''x''] [''x''] ?idfs = Inr (1, 1)"
    by (simp add: ranking_eval)
  have s1: "sentence_score [''x''] [''x'', ''y''] ?idfs = Inr (1, 1 / 2)"
    by (simp add: ranking_eval)
  have "(0::nat) < 1"
    using s1 s2 ord [of 0 1 "[''x'']" "[''x'', ''y'']" 1 1 1 "1 / 2"] by (simp add: rv)
  moreover have "r ! 0 = ''s2''" "r ! 1 = ''s1''" by (simp_all add: rv)
  ultimately have "\<exists>i j. i < j \<and> r ! i = ''s2'' \<and> r ! j = ''s1''" by blast
  with r h1 show ?thesis by simp
qed

section \<open>Entries with equal keys\<close>

lemma files_ties_in_input_order:
  assumes d: "distinct (map fst files)"
    and ij: "i < j" "j < length (top_files query files idfs n)"
    and wi: "(top_files query files idfs n ! i, wi) \<in> set files"
    and wj: "(top_files query files idfs n ! j, wj) \<in> set files"
    and eq: "tf_idf_sum query wi idfs = tf_idf_sum query wj idfs"
  shows "\<exists>i' j'. i' < j' \<and> j' < length files
           \<and> fst (files ! i') = top_files query files idfs n ! i
           \<and> fst (files ! j') = top_files query files idfs n ! j"
proof -
  let ?F = "file_scores query files idfs"
  let ?S = "sorted_reverse snd ?F"
  let ?r = "top_files query files idfs n"
  have F: "?F = map (score_entry query idfs) files" by (rule file_scores_eq [OF d])
  from ij have i: "i < length ?r" by simp
  from top_files_nth [OF i] have ri: "i < length ?F" "?r ! i = fst (?S ! i)" by simp_all
  from top_files_nth [OF ij(2)] have rj: "j < length ?F" "?r ! j = fst (?S ! j)" by simp_all
  have mi: "?S ! i \<in> set ?F"
    using ri(1) nth_mem [of i ?S] by (simp add: length_sorted_reverse set_sorted_reverse)
  have mj: "?S ! j \<in> set ?F"
    using rj(1) nth_mem [of j ?S] by (simp add: length_sorted_reverse set_sorted_reverse)
  have "snd (?S ! i) = tf_idf_sum query wi idfs"
    using file_scores_member [OF d mi] wi by (simp only: ri(2))
  moreover have "snd (?S ! j) = tf_idf_sum query wj idfs"
    using file_scores_member [OF d mj] wj by (simp only: rj(2))
  ultimately have tie: "snd (?S ! i) = snd (?S ! j)" using eq by simp
  from sorted_reverse_keeps_ties [OF ij(1) rj(1) tie] obtain i' j' where
    p: "i' < j'" "j' < length ?F" "?F ! i' = ?S ! i" "?F ! j' = ?S ! j" by blast
  have len: "length ?F = length files" by (simp add: F)
  have "fst (?F ! i') = fst (files ! i')" "fst (?F ! j') = fst (files ! j')"
    using p(1,2) by (simp_all add: F fst_score_entry)
  with p ri(2) rj(2) len show ?thesis by (metis)
qed

lemma sentences_ties_in_input_order:
  assumes d: "distinct (map fst sentences)"
    and res: "top_sentences query sentences idfs n = Inr r"
    and ij: "i < j" "j < length r"
    and wi: "(r ! i, wi) \<in> set sentences"
    and wj: "(r ! j, wj) \<in> set sentences"
    and eq: "sentence_score query wi idfs = sentence_score query wj idfs"
  shows "\<exists>i' j'. i' < j' \<and> j' < length sentences
           \<and> fst (sentences ! i') = r ! i \<and> fst (sentences ! j') = r ! j"
proof -
  let ?E = "map (sentence_entry query idfs) sentences"
  let ?S = "sorted_reverse sentence_key ?E"
  have ne: "\<forall>p \<in> set sentences. snd p \<noteq> []"
    by (rule top_sentences_Inr_nonempty [OF res])
  have r: "r = map fst (slice_to n ?S)"
    using top_sentences_eq [OF d ne, of query idfs n] res by simp
  from ij have i: "i < length (map fst (slice_to n ?S))"
    and j: "j < length (map fst (slice_to n ?S))" by (simp_all add: r)
  from ranked_nth [OF i] have ri: "i < length ?E" "r ! i = fst (?S ! i)" by (simp_all add: r)
  from ranked_nth [OF j] have rj: "j < length ?E" "r ! j = fst (?S ! j)" by (simp_all add: r)
  have nei: "wi \<noteq> []" and nej: "wj \<noteq> []" using ne wi wj by force+
  have pair: "score_pair query idfs wi = score_pair query idfs wj"
    using eq by (simp add: sentence_score_eq [OF nei] sentence_score_eq [OF nej])
  have "snd (?S ! i) = score_pair query idfs wi"
    using sorted_entry_known [of sentences i sentence_key query idfs wi] d ri wi by simp
  moreover have "snd (?S ! j) = score_pair query idfs wj"
    using sorted_entry_known [of sentences j sentence_key query idfs wj] d rj wj by simp
  ultimately have tie: "sentence_key (?S ! i) = sentence_key (?S ! j)"
    using pair by (simp only: sentence_key_snd)
  from sorted_reverse_keeps_ties [OF ij(1) rj(1) tie] obtain i' j' where
    p: "i' < j'" "j' < length ?E" "?E ! i' = ?S ! i" "?E ! j' = ?S ! j" by blast
  have len: "length ?E = length sentences" by simp
  have "fst (?E ! i') = fst (sentences ! i')" "fst (?E ! j') = fst (sentences ! j')"
    using p(1,2) by (simp_all add: fst_sentence_entry)
  with p ri(2) rj(2) len show ?thesis by metis
qed

text \<open>
  Claim C10: two entries of the list returned by \<open>top_files\<close> with equal scores, and two
  entries of the list returned by \<open>top_sentences\<close> with equal pairs, stand in the order
  in which their keys are enumerated in the input mapping.
\<close>

theorem ties_keep_input_order:
  "(distinct (map fst files) \<longrightarrow>
      (\<forall>i j wi wj. i < j \<and> j < length (top_files query files idfs n)
         \<and> (top_files query files idfs n ! i, wi) \<in> set files
         \<and> (top_files query files idfs n ! j, wj) \<in> set files
         \<and> tf_idf_sum query wi idfs = tf_idf_sum query wj idfs
         \<longrightarrow> (\<exists>i' j'. i' < j' \<and> j' < length files
                \<and> fst (files ! i') = top_files query files idfs n ! i
                \<and> fst (files ! j') = top_files query files idfs n ! j)))
   \<and> (distinct (map fst sentences) \<longrightarrow>
      (\<forall>r i j wi wj. top_sentences query sentences idfs n = Inr r
         \<and> i < j \<and> j < length r
         \<and> (r ! i, wi) \<in> set sentences \<and> (r ! j, wj) \<in> set sentences
         \<and> sentence_score query wi idfs = sentence_score query wj idfs
         \<longrightarrow> (\<exists>i' j'. i' < j' \<and> j' < length sentences
                \<and> fst (sentences ! i') = r ! i \<and> fst (sentences ! j') = r ! j)))"
proof (intro conjI impI allI)
  fix i j wi wj
  assume "distinct (map fst files)"
    and "i < j \<and> j < length (top_files query files idfs n)
         \<and> (top_files query files idfs n ! i, wi) \<in> set files
         \<and> (top_files query files idfs n ! j, wj) \<in> set files
         \<and> tf_idf_sum query wi idfs = tf_idf_sum query wj idfs"
  then show "\<exists>i' j'. i' < j' \<and> j' < length files
                \<and> fst (files ! i') = top_files query files idfs n ! i
                \<and> fst (files ! j') = top_files query files idfs n ! j"
    by (intro files_ties_in_input_order [of files i j query idfs n wi wj]) simp_all
next
  fix r i j wi wj
  assume "distinct (map fst sentences)"
    and "top_sentences query sentences idfs n = Inr r
         \<and> i < j \<and> j < length r
         \<and> (r ! i, wi) \<in> set sentences \<and> (r ! j, wj) \<in> set sentences
         \<and> sentence_score query wi idfs = sentence_score query wj idfs"
  then show "\<exists>i' j'. i' < j' \<and> j' < length sentences
                \<and> fst (sentences ! i') = r ! i \<and> fst (sentences ! j') = r ! j"
    by (intro sentences_ties_in_input_order [of sentences query idfs n r i j wi wj]) simp_all
qed

theorem ties_keep_input_order_witness:
  "distinct (map fst [(''a'', [''x'']), (''b'', [''x''])])
   \<and> distinct (map fst [(''s1'', [''x'']), (''s2'', [''x''])])
   \<and> (\<exists>i' j'. i' < j' \<and> j' < length [(''a'', [''x'']), (''b'', [''x''])]
         \<and> fst ([(''a'', [''x'']), (''b'', [''x''])] ! i')
             = top_files [''x''] [(''a'', [''x'']), (''b'', [''x''])] [(''x'', 1)] 2 ! 0
         \<and> fst ([(''a'', [''x'']), (''b'', [''x''])] ! j')
             = top_files [''x''] [(''a'', [''x'']), (''b'', [''x''])] [(''x'', 1)] 2 ! 1)
   \<and> (\<exists>r i' j'. top_sentences [''x''] [(''s1'', [''x'']), (''s2'', [''x''])] [(''x'', 1)] 2
                    = Inr r
         \<and> i' < j' \<and> j' < length [(''s1'', [''x'']), (''s2'', [''x''])]
         \<and> fst ([(''s1'', [''x'']), (''s2'', [''x''])] ! i') = r ! 0
         \<and> fst ([(''s1'', [''x'']), (''s2'', [''x''])] ! j') = r ! 1)"
proof -
  let ?F = "[(''a'', [''x'']), (''b'', [''x''])]"
  let ?S = "[(''s1'', [''x'']), (''s2'', [''x''])]"
  let ?q = "[''x'']" and ?idfs = "[(''x'', 1::real)]"
  note t = ties_keep_input_order [of ?F ?q ?idfs 2 ?S]
  have h1: "distinct (map fst ?F)" by simp
  have h2: "distinct (map fst ?S)" by simp
  have evF: "top_files ?q ?F ?idfs 2 = [''a'', ''b'']" by (simp add: ranking_eval)
  have evS: "top_sentences ?q ?S ?idfs 2 = Inr [''s1'', ''s2'']" by (simp add: ranking_eval)
  from t h1 have "\<forall>i j wi wj. i < j \<and> j < length (top_files ?q ?F ?idfs 2)
         \<and> (top_files ?q ?F ?idfs 2 ! i, wi) \<in> set ?F
         \<and> (top_files ?q ?F ?idfs 2 ! j, wj) \<in> set ?F
         \<and> tf_idf_sum ?q wi ?idfs = tf_idf_sum ?q wj ?idfs
         \<longrightarrow> (\<exists>i' j'. i' < j' \<and> j' < length ?F
                \<and> fst (?F ! i') = top_files ?q ?F ?idfs 2 ! i
                \<and> fst (?F ! j') = top_files ?q ?F ?idfs 2 ! j)"
    by blast
  from this [rule_format, of 0 1 "[''x'']" "[''x'']"] have
    a: "\<exists>i' j'. i' < j' \<and> j' < length ?F
                \<and> fst (?F ! i') = top_files ?q ?F ?idfs 2 ! 0
                \<and> fst (?F ! j') = top_files ?q ?F ?idfs 2 ! 1"
    by (simp add: evF)
  from t h2 have "\<forall>r i j wi wj. top_sentences ?q ?S ?idfs 2 = Inr r
         \<and> i < j \<and> j < length r
         \<and> (r ! i, wi) \<in> set ?S \<and> (r ! j, wj) \<in> set ?S
         \<and> sentence_score ?q wi ?idfs = sentence_score ?q wj ?idfs
         \<longrightarrow> (\<exists>i' j'. i' < j' \<and> j' < length ?S
                \<and> fst (?S ! i') = r ! i \<and> fst (?S ! j') = r ! j)"
    by blast
  from this [rule_format, of "[''s1'', ''s2'']" 0 1 "[''x'']" "[''x'']"] have
    "\<exists>i' j'. i' < j' \<and> j' < length ?S
                \<and> fst (?S ! i') = [''s1'', ''s2''] ! 0 \<and> fst (?S ! j') = [''s1'', ''s2''] ! 1"
    by (simp add: evS)
  with evS have b: "\<exists>r i' j'. top_sentences ?q ?S ?idfs 2 = Inr r
         \<and> i' < j' \<and> j' < length ?S \<and> fst (?S ! i') = r ! 0 \<and> fst (?S ! j') = r ! 1"
    by blast
  from h1 h2 a b show ?thesis by (intro conjI)
qed

end
